theory Spec2Isabelle
  imports Main "HOL-Library.Word" "HOL-Library.Multiset"
begin

unbundle bit_operations_syntax

section \<open>The data model of trie.go\<close>

text \<open>
  A Go byte is an 8-bit word. A Go \<^verbatim>\<open>[]byte\<close> is either \<^verbatim>\<open>nil\<close> or a sequence of
  bytes; the code tests \<^verbatim>\<open>n.key != nil\<close>, so the difference between \<^verbatim>\<open>nil\<close> and an
  empty slice is kept: \<open>None\<close> is \<^verbatim>\<open>nil\<close>.
\<close>

type_synonym byte = "8 word"
type_synonym slice = "byte list option"

text \<open>The run-time panics the code can raise.\<close>

datatype error = IndexOutOfRange | NilDereference

text \<open>\<^verbatim>\<open>type node struct { level, bit, number byte; left, right *node; key, value []byte }\<close>.
  A \<^verbatim>\<open>*node\<close> that is \<^verbatim>\<open>nil\<close> is \<open>None\<close>; every node owns its two subtrees. The fields
  \<^verbatim>\<open>bit\<close> and \<^verbatim>\<open>value\<close> are \<open>nbit\<close> and \<open>val\<close> here.\<close>

datatype node = Node
  (level: byte) (nbit: byte) (number: byte)
  (left: "node option") (right: "node option")
  (key: slice) (val: slice)

text \<open>\<^verbatim>\<open>type MerkleTrie struct { root *node; empty bool }\<close>\<close>

record MerkleTrie =
  root :: node
  empty :: bool

text \<open>The bytes of a slice (\<^verbatim>\<open>nil\<close> has none), \<^verbatim>\<open>len\<close>, \<^verbatim>\<open>bytes.Equal\<close> (which
  does not tell \<^verbatim>\<open>nil\<close> from an empty slice), and the bounds-checked read \<^verbatim>\<open>key[i]\<close>.\<close>

fun slice_bytes :: "slice \<Rightarrow> byte list" where
  "slice_bytes None = []"
| "slice_bytes (Some bs) = bs"

definition slice_len :: "slice \<Rightarrow> nat" where
  "slice_len s = length (slice_bytes s)"

definition bytes_Equal :: "slice \<Rightarrow> slice \<Rightarrow> bool" where
  "bytes_Equal a b = (slice_bytes a = slice_bytes b)"

definition index :: "slice \<Rightarrow> byte \<Rightarrow> error + byte" where
  "index s i = (if unat i < slice_len s then Inr (slice_bytes s ! unat i) else Inl IndexOutOfRange)"

text \<open>Field assignments \<^verbatim>\<open>n.left = c\<close>, \<^verbatim>\<open>n.right = c\<close>, \<^verbatim>\<open>n.key = k\<close>, \<^verbatim>\<open>n.value = v\<close>.\<close>

fun set_left :: "node \<Rightarrow> node option \<Rightarrow> node" where
  "set_left (Node lv b nm l r k v) c = Node lv b nm c r k v"

fun set_right :: "node \<Rightarrow> node option \<Rightarrow> node" where
  "set_right (Node lv b nm l r k v) c = Node lv b nm l c k v"

fun set_key :: "node \<Rightarrow> slice \<Rightarrow> node" where
  "set_key (Node lv b nm l r k v) k' = Node lv b nm l r k' v"

fun set_val :: "node \<Rightarrow> slice \<Rightarrow> node" where
  "set_val (Node lv b nm l r k v) v' = Node lv b nm l r k v'"

section \<open>Construction\<close>

text \<open>\<^verbatim>\<open>newNode\<close>: \<^verbatim>\<open>number: level / 8, bit: byte(1 << (7 - (level % 8)))\<close>, all in bytes.\<close>

definition newNode :: "byte \<Rightarrow> slice \<Rightarrow> slice \<Rightarrow> node" where
  "newNode lv k v = Node lv (push_bit (7 - unat (lv mod 8)) 1) (lv div 8) None None k v"

definition NewMerkleTrie :: MerkleTrie where
  "NewMerkleTrie = \<lparr> root = newNode 0 None None, empty = True \<rparr>"

section \<open>Insertion\<close>

text \<open>
  \<^verbatim>\<open>node.add\<close> mutates the node it is called on. The model returns the node after the
  call. A panic leaves the mutations made so far in place, so the panic carries the node
  as it is at that moment: \<open>Inl (e, n')\<close>. The recursion of the source is not bounded by
  the size of the tree (the demoted key is inserted again into the same node), so the
  function is partial: \<open>None\<close> is a call that never returns.
\<close>

type_synonym outcome = "(error \<times> node) + node"

definition in_left :: "node \<Rightarrow> outcome \<Rightarrow> outcome" where
  "in_left n r = (case r of Inl (e, c) \<Rightarrow> Inl (e, set_left n (Some c)) | Inr c \<Rightarrow> Inr (set_left n (Some c)))"

definition in_right :: "node \<Rightarrow> outcome \<Rightarrow> outcome" where
  "in_right n r = (case r of Inl (e, c) \<Rightarrow> Inl (e, set_right n (Some c)) | Inr c \<Rightarrow> Inr (set_right n (Some c)))"

partial_function (option) add :: "node \<Rightarrow> slice \<Rightarrow> slice \<Rightarrow> outcome option" where
  "add n k v =
    (if key n \<noteq> None \<and> bytes_Equal (key n) k then Some (Inr (set_val n v))
     else case index k (number n) of
       Inl e \<Rightarrow> Some (Inl (e, n))
     | Inr b \<Rightarrow>
         Option.bind
           (if nbit n AND b = 0
            then (case left n of
                    None \<Rightarrow> Some (Inr (set_left n (Some (newNode (level n + 1) k v))))
                  | Some c \<Rightarrow> Option.bind (add c k v) (\<lambda>r. Some (in_left n r)))
            else (case right n of
                    None \<Rightarrow> Some (Inr (set_right n (Some (newNode (level n + 1) k v))))
                  | Some c \<Rightarrow> Option.bind (add c k v) (\<lambda>r. Some (in_right n r))))
           (\<lambda>r. case r of
                  Inl p \<Rightarrow> Some (Inl p)
                | Inr n1 \<Rightarrow>
                    if key n1 \<noteq> None
                    then add (set_val (set_key n1 None) None) (key n1) (val n1)
                    else Some (Inr n1)))"

declare add.simps [code]

text \<open>\<^verbatim>\<open>MerkleTrie.Add\<close>: the first insertion writes the root in place, without reading the key.\<close>

type_synonym trie_outcome = "(error \<times> MerkleTrie) + MerkleTrie"

definition Add :: "MerkleTrie \<Rightarrow> slice \<Rightarrow> slice \<Rightarrow> trie_outcome option" where
  "Add t k v =
    (if empty t then Some (Inr (t\<lparr> root := set_val (set_key (root t) k) v, empty := False \<rparr>))
     else Option.bind (add (root t) k v)
            (\<lambda>r. Some (case r of Inl (e, n) \<Rightarrow> Inl (e, t\<lparr> root := n \<rparr>) | Inr n \<Rightarrow> Inr (t\<lparr> root := n \<rparr>))))"

section \<open>Queries\<close>

text \<open>
  \<^verbatim>\<open>hash\<close> and the closure \<^verbatim>\<open>r\<close> of \<^verbatim>\<open>MaxDepth\<close> receive a pointer to a node. They are
  modelled like \<^verbatim>\<open>add\<close>: each returns its result together with the node as the call
  leaves it. The hash function (\<^verbatim>\<open>crypto/sha256\<close>) is the parameter \<open>H\<close>;
  \<^verbatim>\<open>h.Write(nil)\<close> writes nothing. \<^verbatim>\<open>hash(nil)\<close> dereferences a nil pointer.
\<close>

fun hash :: "(byte list \<Rightarrow> byte list) \<Rightarrow> node \<Rightarrow> (error + byte list) \<times> node" where
  "hash H (Node lv b nm l r k v) =
    (if k \<noteq> None then (Inr (H (slice_bytes v)), Node lv b nm l r k v)
     else case l of
       None \<Rightarrow> (case r of
                  None \<Rightarrow> (Inl NilDereference, Node lv b nm l r k v)
                | Some rn \<Rightarrow> (case hash H rn of (d, rn') \<Rightarrow> (d, Node lv b nm l (Some rn') k v)))
     | Some ln \<Rightarrow> (case r of
                  None \<Rightarrow> (case hash H ln of (d, ln') \<Rightarrow> (d, Node lv b nm (Some ln') r k v))
                | Some rn \<Rightarrow>
                    (case hash H ln of
                       (Inl e, ln') \<Rightarrow> (Inl e, Node lv b nm (Some ln') r k v)
                     | (Inr dl, ln') \<Rightarrow>
                         (case hash H rn of
                            (Inl e, rn') \<Rightarrow> (Inl e, Node lv b nm (Some ln') (Some rn') k v)
                          | (Inr dr, rn') \<Rightarrow>
                              (Inr (H (dl @ dr)), Node lv b nm (Some ln') (Some rn') k v)))))"

definition Hash :: "(byte list \<Rightarrow> byte list) \<Rightarrow> MerkleTrie \<Rightarrow> (error + byte list) \<times> MerkleTrie" where
  "Hash H t =
    (if empty t then (Inr (H []), t)
     else case hash H (root t) of (d, n) \<Rightarrow> (d, t\<lparr> root := n \<rparr>))"

fun max_depth_r :: "node \<Rightarrow> byte \<times> node" where
  "max_depth_r (Node lv b nm l r k v) =
    (if k \<noteq> None then (lv, Node lv b nm l r k v)
     else
       case (case l of None \<Rightarrow> (0, None)
                     | Some ln \<Rightarrow> (case max_depth_r ln of (d, ln') \<Rightarrow> (d, Some ln'))) of
         (dl, l') \<Rightarrow>
           (case (case r of None \<Rightarrow> (0, None)
                          | Some rn \<Rightarrow> (case max_depth_r rn of (d, rn') \<Rightarrow> (d, Some rn'))) of
              (dr, r') \<Rightarrow> (if dl > dr then dl else dr, Node lv b nm l' r' k v)))"

definition MaxDepth :: "MerkleTrie \<Rightarrow> byte \<times> MerkleTrie" where
  "MaxDepth t =
    (if empty t then (0, t)
     else case max_depth_r (root t) of (d, n) \<Rightarrow> (d, t\<lparr> root := n \<rparr>))"

section \<open>Sequences of insertions\<close>

text \<open>A caller inserting a list of pairs one after the other; a panic or a call that does
  not return ends the run.\<close>

fun AddAll :: "MerkleTrie \<Rightarrow> (slice \<times> slice) list \<Rightarrow> trie_outcome option" where
  "AddAll t [] = Some (Inr t)"
| "AddAll t ((k, v) # kvs) =
    (case Add t k v of
       Some (Inr t') \<Rightarrow> AddAll t' kvs
     | other \<Rightarrow> other)"

section \<open>Notions used by the properties\<close>

subsection \<open>Child slots\<close>

text \<open>The child slot \<^verbatim>\<open>add\<close> selects for a key whose byte at the node's index is \<open>b\<close>
  (\<^verbatim>\<open>n.bit&key[n.number] == 0\<close> selects \<^verbatim>\<open>n.left\<close>), and the assignment to that slot.\<close>

definition slot :: "node \<Rightarrow> byte \<Rightarrow> node option" where
  "slot n b = (if nbit n AND b = 0 then left n else right n)"

definition set_slot :: "node \<Rightarrow> byte \<Rightarrow> node option \<Rightarrow> node" where
  "set_slot n b c = (if nbit n AND b = 0 then set_left n c else set_right n c)"

text \<open>How the outcome of \<^verbatim>\<open>add\<close> on a child shows in its parent.\<close>

definition in_slot :: "node \<Rightarrow> byte \<Rightarrow> outcome \<Rightarrow> outcome" where
  "in_slot n b r = (if nbit n AND b = 0 then in_left n r else in_right n r)"

subsection \<open>The digest of the specification\<close>

text \<open>The digest as the specification words it: a leaf (a node whose key is set) has the
  hash of its value; a node with both children has the hash of the left digest followed by
  the right digest; a node with one child has that child's digest. A node with neither key
  nor children is given no digest.\<close>

fun spec_digest :: "(byte list \<Rightarrow> byte list) \<Rightarrow> node \<Rightarrow> byte list option" where
  "spec_digest H (Node lv b nm l r k v) =
    (if k \<noteq> None then Some (H (slice_bytes v))
     else case (l, r) of
       (Some ln, Some rn) \<Rightarrow>
         (case (spec_digest H ln, spec_digest H rn) of
            (Some dl, Some dr) \<Rightarrow> Some (H (dl @ dr))
          | _ \<Rightarrow> None)
     | (Some ln, None) \<Rightarrow> spec_digest H ln
     | (None, Some rn) \<Rightarrow> spec_digest H rn
     | (None, None) \<Rightarrow> None)"

subsection \<open>The walk of a key down the trie\<close>

text \<open>The byte indices of the key that \<^verbatim>\<open>add\<close> reads while it walks down the nodes that
  already exist: the walk ends at a leaf with an equal key, at a free slot, or at an index
  the key does not have. A key is too short for a node when one of these indices is not
  below its length.\<close>

fun descent :: "node \<Rightarrow> slice \<Rightarrow> byte list" where
  "descent (Node lv b nm l r k v) k' =
    (if k \<noteq> None \<and> bytes_Equal k k' then []
     else nm # (case index k' nm of
                  Inl e \<Rightarrow> []
                | Inr x \<Rightarrow>
                    if b AND x = 0
                    then (case l of None \<Rightarrow> [] | Some c \<Rightarrow> descent c k')
                    else (case r of None \<Rightarrow> [] | Some c \<Rightarrow> descent c k')))"

definition too_short :: "node \<Rightarrow> slice \<Rightarrow> bool" where
  "too_short n k = (\<exists>i \<in> set (descent n k). slice_len k \<le> unat i)"

subsection \<open>The reads of an insertion\<close>

text \<open>The reads of keys that a call \<^verbatim>\<open>n.add(k, v)\<close> performs: \<open>reads n k v k' i\<close> says that
  the call evaluates \<^verbatim>\<open>k'[i]\<close>. The call reads its own key at the node's index unless the
  node is a leaf with an equal key; when that byte exists it performs the reads of the call
  on the child it selects; and when the node held a key and the first part did not panic,
  it performs the reads of the call that inserts the node's old key again.\<close>

inductive reads :: "node \<Rightarrow> slice \<Rightarrow> slice \<Rightarrow> slice \<Rightarrow> byte \<Rightarrow> bool" where
  read_here:
    "\<not> (key n \<noteq> None \<and> bytes_Equal (key n) k) \<Longrightarrow> reads n k v k (number n)"
| read_child:
    "\<not> (key n \<noteq> None \<and> bytes_Equal (key n) k) \<Longrightarrow> index k (number n) = Inr b \<Longrightarrow>
     slot n b = Some c \<Longrightarrow> reads c k v k' i \<Longrightarrow> reads n k v k' i"
| read_again_fresh:
    "\<not> (key n \<noteq> None \<and> bytes_Equal (key n) k) \<Longrightarrow> index k (number n) = Inr b \<Longrightarrow>
     slot n b = None \<Longrightarrow> key n \<noteq> None \<Longrightarrow>
     reads (set_val (set_key (set_slot n b (Some (newNode (level n + 1) k v))) None) None)
       (key n) (val n) k' i \<Longrightarrow>
     reads n k v k' i"
| read_again_child:
    "\<not> (key n \<noteq> None \<and> bytes_Equal (key n) k) \<Longrightarrow> index k (number n) = Inr b \<Longrightarrow>
     slot n b = Some c \<Longrightarrow> add c k v = Some (Inr c') \<Longrightarrow> key n \<noteq> None \<Longrightarrow>
     reads (set_val (set_key (set_slot n b (Some c')) None) None) (key n) (val n) k' i \<Longrightarrow>
     reads n k v k' i"

code_pred reads .

subsection \<open>Node invariants\<close>

text \<open>The first invariant of the data model, for one node and for all nodes of a tree.\<close>

definition node_ok :: "node \<Rightarrow> bool" where
  "node_ok n = ((key n \<noteq> None \<and> val n \<noteq> None \<and> left n = None \<and> right n = None)
              \<or> (key n = None \<and> val n = None))"

fun all_nodes :: "(node \<Rightarrow> bool) \<Rightarrow> node \<Rightarrow> bool" where
  "all_nodes P (Node lv b nm l r k v) =
    (P (Node lv b nm l r k v)
     \<and> (case l of None \<Rightarrow> True | Some c \<Rightarrow> all_nodes P c)
     \<and> (case r of None \<Rightarrow> True | Some c \<Rightarrow> all_nodes P c))"

text \<open>The leaves of a tree in the order \<^verbatim>\<open>traversePrint\<close> visits them, each with its key and
  value.\<close>

fun entries :: "node \<Rightarrow> (slice \<times> slice) list" where
  "entries (Node lv b nm l r k v) =
    (if k \<noteq> None then [(k, v)]
     else (case l of None \<Rightarrow> [] | Some c \<Rightarrow> entries c)
        @ (case r of None \<Rightarrow> [] | Some c \<Rightarrow> entries c))"

text \<open>The test of \<^verbatim>\<open>add\<close> at a node with bit mask \<open>b\<close> and byte index \<open>nm\<close>, applied to a
  key: the key has that byte, and the masked bit is clear (left) or set (right).\<close>

definition goes_to_left :: "byte \<Rightarrow> byte \<Rightarrow> slice \<Rightarrow> bool" where
  "goes_to_left b nm k = (case index k nm of Inl e \<Rightarrow> False | Inr x \<Rightarrow> b AND x = 0)"

definition goes_to_right :: "byte \<Rightarrow> byte \<Rightarrow> slice \<Rightarrow> bool" where
  "goes_to_right b nm k = (case index k nm of Inl e \<Rightarrow> False | Inr x \<Rightarrow> b AND x \<noteq> 0)"

text \<open>Every leaf sits where its key leads: a node with a key has no children, and the keys
  of the leaves below a child pass the parent's test for that side.\<close>

fun routed :: "node \<Rightarrow> bool" where
  "routed (Node lv b nm l r k v) =
    ((k = None \<or> (l = None \<and> r = None))
     \<and> (case l of None \<Rightarrow> True
         | Some c \<Rightarrow> routed c \<and> list_all (\<lambda>kv. goes_to_left b nm (fst kv)) (entries c))
     \<and> (case r of None \<Rightarrow> True
         | Some c \<Rightarrow> routed c \<and> list_all (\<lambda>kv. goes_to_right b nm (fst kv)) (entries c)))"

text \<open>The tree with the value of the leaves holding the key replaced, and the tree with keys
  and values erased: its nodes, links, levels, masks and indices.\<close>

fun set_leaf_value :: "slice \<Rightarrow> slice \<Rightarrow> node \<Rightarrow> node" where
  "set_leaf_value k v (Node lv b nm l r ko vo) =
    (if ko \<noteq> None then (if bytes_Equal ko k then Node lv b nm l r ko v else Node lv b nm l r ko vo)
     else Node lv b nm
            (case l of None \<Rightarrow> None | Some c \<Rightarrow> Some (set_leaf_value k v c))
            (case r of None \<Rightarrow> None | Some c \<Rightarrow> Some (set_leaf_value k v c)) ko vo)"

fun shape :: "node \<Rightarrow> node" where
  "shape (Node lv b nm l r k v) =
    Node lv b nm (case l of None \<Rightarrow> None | Some c \<Rightarrow> Some (shape c))
                 (case r of None \<Rightarrow> None | Some c \<Rightarrow> Some (shape c)) None None"

text \<open>A node at depth \<open>d\<close> (the number of edges from the root) stores \<open>d\<close> modulo 256 as
  its level, and the byte index and bit mask that \<^verbatim>\<open>newNode\<close> derives from the level; so do
  all nodes below it.\<close>

fun stored_levels :: "nat \<Rightarrow> node \<Rightarrow> bool" where
  "stored_levels d (Node lv b nm l r k v) =
    (unat lv = d mod 256 \<and> nm = lv div 8 \<and> b = push_bit (7 - unat (lv mod 8)) 1
     \<and> (case l of None \<Rightarrow> True | Some c \<Rightarrow> stored_levels (Suc d) c)
     \<and> (case r of None \<Rightarrow> True | Some c \<Rightarrow> stored_levels (Suc d) c))"

text \<open>The depths of the leaves: the nodes whose level \<^verbatim>\<open>MaxDepth\<close> reads.\<close>

fun leaf_depths :: "nat \<Rightarrow> node \<Rightarrow> nat list" where
  "leaf_depths d (Node lv b nm l r k v) =
    (if k \<noteq> None then [d]
     else (case l of None \<Rightarrow> [] | Some c \<Rightarrow> leaf_depths (Suc d) c)
        @ (case r of None \<Rightarrow> [] | Some c \<Rightarrow> leaf_depths (Suc d) c))"

subsection \<open>Keys as bit strings\<close>

text \<open>Bit \<open>i\<close> of a key, counted from the most significant bit of byte 0, as the node at
  depth \<open>i\<close> tests it: the key goes left when the bit is clear.\<close>

definition goes_left :: "nat \<Rightarrow> slice \<Rightarrow> bool" where
  "goes_left i k = (push_bit (7 - i mod 8) (1 :: byte) AND slice_bytes k ! (i div 8) = 0)"

text \<open>Two keys diverge from depth \<open>L\<close> on when they differ at a bit at or after \<open>L\<close> that
  both keys have and that lies below 256, the number of levels a byte counts.\<close>

definition diverge :: "nat \<Rightarrow> slice \<Rightarrow> slice \<Rightarrow> bool" where
  "diverge L k1 k2 =
    (\<exists>i \<in> {L ..< min 256 (min (8 * slice_len k1) (8 * slice_len k2))}. goes_left i k1 \<noteq> goes_left i k2)"

text \<open>The keys of a list are distinct and diverge pairwise from depth \<open>L\<close> on.\<close>

definition sep :: "nat \<Rightarrow> (slice \<times> slice) list \<Rightarrow> bool" where
  "sep L kvs = (distinct (map fst kvs) \<and>
     (\<forall>k1 \<in> set (map fst kvs). \<forall>k2 \<in> set (map fst kvs). k1 \<noteq> k2 \<longrightarrow> diverge L k1 k2))"

text \<open>Every two keys of the list differ at a bit that both have, below bit 256.\<close>

fun separated :: "(slice \<times> slice) list \<Rightarrow> bool" where
  "separated [] = True"
| "separated (kv # kvs) = (list_all (\<lambda>kv'. diverge 0 (fst kv) (fst kv')) kvs \<and> separated kvs)"

text \<open>The tree that holds a list of pairs below depth \<open>L\<close>, with \<open>c\<close> levels left before the
  level counter wraps: nothing for no pair, a leaf for one pair, and otherwise an internal
  node over the pairs whose bit \<open>L\<close> is clear and those whose bit \<open>L\<close> is set.\<close>

primrec build :: "nat \<Rightarrow> nat \<Rightarrow> (slice \<times> slice) list \<Rightarrow> node option" where
  "build 0 L kvs =
     (case kvs of
        [] \<Rightarrow> None
      | kv # rest \<Rightarrow> if rest = [] then Some (newNode (of_nat L) (fst kv) (snd kv)) else None)"
| "build (Suc c) L kvs =
     (case kvs of
        [] \<Rightarrow> None
      | kv # rest \<Rightarrow>
          if rest = [] then Some (newNode (of_nat L) (fst kv) (snd kv))
          else Some (set_right (set_left (newNode (of_nat L) None None)
                 (build c (Suc L) (filter (\<lambda>kv. goes_left L (fst kv)) kvs)))
                 (build c (Suc L) (filter (\<lambda>kv. \<not> goes_left L (fst kv)) kvs))))"

text \<open>Two keys of equal length that differ only in the last bit of their last byte, the
  first having that bit clear.\<close>

definition differ_in_last_bit :: "byte list \<Rightarrow> byte list \<Rightarrow> bool" where
  "differ_in_last_bit ka kb =
    (ka \<noteq> [] \<and> length ka = length kb \<and> butlast ka = butlast kb
     \<and> last ka XOR last kb = 1 \<and> last ka AND 1 = 0)"

text \<open>The position of the first bit at which two keys differ.\<close>

definition first_diff :: "slice \<Rightarrow> slice \<Rightarrow> nat option" where
  "first_diff k1 k2 =
    find (\<lambda>i. goes_left i k1 \<noteq> goes_left i k2) [0 ..< 8 * min (slice_len k1) (slice_len k2)]"

text \<open>Two different keys that agree on their first 32 bytes, a leaf that holds one of them
  while the other is inserted, and the node right above such a leaf.\<close>

definition same_prefix :: "byte list \<Rightarrow> slice \<Rightarrow> bool" where
  "same_prefix ko k = (32 \<le> length ko \<and> 32 \<le> slice_len k
     \<and> take 32 ko = take 32 (slice_bytes k) \<and> ko \<noteq> slice_bytes k)"

definition colliding_leaf :: "node \<Rightarrow> slice \<Rightarrow> bool" where
  "colliding_leaf n k = (\<exists>ko. key n = Some ko \<and> left n = None \<and> right n = None
     \<and> same_prefix ko k \<and> unat (number n) < 32)"

definition above_colliding_leaf :: "node \<Rightarrow> slice \<Rightarrow> bool" where
  "above_colliding_leaf n k = (key n = None \<and> unat (number n) < 32 \<and> 32 \<le> slice_len k
     \<and> (\<exists>c. slot n (slice_bytes k ! unat (number n)) = Some c \<and> colliding_leaf c k))"

section \<open>Example tries\<close>

text \<open>A stand-in for the hash function in the examples.\<close>

definition toy_hash :: "byte list \<Rightarrow> byte list" where
  "toy_hash bs = [of_nat (length bs), sum_list bs]"

definition two_leaf_trie :: MerkleTrie where
  "two_leaf_trie = \<lparr> root = Node 0 128 0
      (Some (Node 1 64 0 None None (Some [0, 1]) (Some [7])))
      (Some (Node 1 64 0 None None (Some [128, 1]) (Some [8]))) None None, empty = False \<rparr>"

definition two_pairs :: "(slice \<times> slice) list" where
  "two_pairs = [(Some [0, 1], Some [7]), (Some [128, 1], Some [8])]"

definition long_key_trie :: MerkleTrie where
  "long_key_trie = \<lparr> root = Node 0 128 0 None None (Some [0, 1]) (Some [7]), empty = False \<rparr>"


definition broken_trie :: MerkleTrie where
  "broken_trie = \<lparr> root =
     Node 0 128 0 (Some
    (Node 1 64 0 (Some
    (Node 2 32 0 (Some
    (Node 3 16 0 (Some
    (Node 4 8 0 (Some
    (Node 5 4 0 (Some
    (Node 6 2 0 (Some
    (Node 7 1 0 (Some
    (Node 8 128 1 None None (Some [0, 1]) (Some [7])))
     None None None)) None None None)) None None None)) None None None))
     None None None)) None None None)) None None None)) None None None, empty = False \<rparr>"

definition deep_trie :: MerkleTrie where
  "deep_trie =
    (case AddAll NewMerkleTrie [(Some [0, 0], Some [8]), (Some [0, 1], Some [7])] of
       Some (Inr t) \<Rightarrow> t
     | _ \<Rightarrow> NewMerkleTrie)"

definition nil_value_trie :: MerkleTrie where
  "nil_value_trie = \<lparr> root = Node 0 128 0 None None (Some [0]) None, empty = False \<rparr>"

definition three_pairs :: "(slice \<times> slice) list" where
  "three_pairs = [(Some [0, 1], Some [7]), (Some [128, 1], Some [8]), (Some [0, 3], None)]"

definition three_pairs' :: "(slice \<times> slice) list" where
  "three_pairs' = [(Some [0, 3], None), (Some [0, 1], Some [7]), (Some [128, 1], Some [8])]"

definition wide_key_a :: slice where
  "wide_key_a = Some (replicate 32 0 @ [0])"

definition wide_key_b :: slice where
  "wide_key_b = Some (replicate 32 0 @ [1])"

definition wide_trie :: MerkleTrie where
  "wide_trie = \<lparr> root = newNode 0 wide_key_a (Some [1]), empty = False \<rparr>"

text \<open>Two keys of 32 bytes that differ in bit 255, and two short keys.\<close>

definition key32_a :: "byte list" where
  "key32_a = replicate 31 0 @ [0]"

definition key32_b :: "byte list" where
  "key32_b = replicate 31 0 @ [1]"

definition wrap_pairs :: "(slice \<times> slice) list" where
  "wrap_pairs = [(Some key32_a, Some [1]), (Some key32_b, Some [2])]"

definition wrap_trie :: MerkleTrie where
  "wrap_trie = (case AddAll NewMerkleTrie wrap_pairs of Some (Inr t) \<Rightarrow> t | _ \<Rightarrow> NewMerkleTrie)"

text \<open>The two keys of 32 bytes with a key of one byte, and the two keys of 33 bytes.\<close>

definition wrap3_pairs :: "(slice \<times> slice) list" where
  "wrap3_pairs = [(Some key32_a, Some [1]), (Some key32_b, Some [2]), (Some [128], Some [3])]"

definition wrap3_trie :: MerkleTrie where
  "wrap3_trie = (case AddAll NewMerkleTrie wrap3_pairs of Some (Inr t) \<Rightarrow> t | _ \<Rightarrow> NewMerkleTrie)"

definition wide_pairs :: "(slice \<times> slice) list" where
  "wide_pairs = [(wide_key_a, Some [1]), (wide_key_b, Some [2])]"

definition short_key_a :: "byte list" where
  "short_key_a = [5, 2]"

definition short_key_b :: "byte list" where
  "short_key_b = [5, 3]"

section \<open>Basic facts\<close>

lemmas eval_defs = Add_def NewMerkleTrie_def newNode_def index_def slice_len_def bytes_Equal_def
  in_left_def in_right_def

lemma all_nodes_sel:
  "all_nodes P n = (P n \<and> (case left n of None \<Rightarrow> True | Some c \<Rightarrow> all_nodes P c)
     \<and> (case right n of None \<Rightarrow> True | Some c \<Rightarrow> all_nodes P c))"
  by (cases n) simp

lemma set_left_sel [simp]:
  "level (set_left n c) = level n" "nbit (set_left n c) = nbit n" "number (set_left n c) = number n"
  "left (set_left n c) = c" "right (set_left n c) = right n"
  "key (set_left n c) = key n" "val (set_left n c) = val n"
  by (cases n; simp)+

lemma set_right_sel [simp]:
  "level (set_right n c) = level n" "nbit (set_right n c) = nbit n" "number (set_right n c) = number n"
  "left (set_right n c) = left n" "right (set_right n c) = c"
  "key (set_right n c) = key n" "val (set_right n c) = val n"
  by (cases n; simp)+

lemma set_key_sel [simp]:
  "level (set_key n c) = level n" "nbit (set_key n c) = nbit n" "number (set_key n c) = number n"
  "left (set_key n c) = left n" "right (set_key n c) = right n"
  "key (set_key n c) = c" "val (set_key n c) = val n"
  by (cases n; simp)+

lemma set_val_sel [simp]:
  "level (set_val n c) = level n" "nbit (set_val n c) = nbit n" "number (set_val n c) = number n"
  "left (set_val n c) = left n" "right (set_val n c) = right n"
  "key (set_val n c) = key n" "val (set_val n c) = c"
  by (cases n; simp)+

lemma newNode_sel [simp]:
  "level (newNode lv k v) = lv" "nbit (newNode lv k v) = push_bit (7 - unat (lv mod 8)) 1"
  "number (newNode lv k v) = lv div 8"
  "left (newNode lv k v) = None" "right (newNode lv k v) = None"
  "key (newNode lv k v) = k" "val (newNode lv k v) = v"
  by (simp_all add: newNode_def)

lemma set_left_same [simp]: "left n = Some c \<Longrightarrow> set_left n (Some c) = n"
  by (cases n) simp

lemma set_right_same [simp]: "right n = Some c \<Longrightarrow> set_right n (Some c) = n"
  by (cases n) simp

lemma index_Inl: "index k i = Inl e \<Longrightarrow> e = IndexOutOfRange \<and> slice_len k \<le> unat i"
  by (auto simp: index_def split: if_splits)

lemma index_Inr: "index k i = Inr b \<Longrightarrow> unat i < slice_len k"
  by (auto simp: index_def split: if_splits)

lemma too_short_Node:
  "too_short (Node lv b nm l r ko vo) k =
    (\<not> (ko \<noteq> None \<and> bytes_Equal ko k) \<and>
     (case index k nm of
        Inl e \<Rightarrow> True
      | Inr x \<Rightarrow>
          if b AND x = 0
          then (case l of None \<Rightarrow> False | Some c \<Rightarrow> too_short c k)
          else (case r of None \<Rightarrow> False | Some c \<Rightarrow> too_short c k)))"
  by (auto simp: too_short_def index_def split: option.splits)

lemma add_too_short: "too_short n k \<Longrightarrow> add n k v = Some (Inl (IndexOutOfRange, n))"
proof (induction n)
  case (Node lv b nm l r ko vo)
  let ?n = "Node lv b nm l r ko vo"
  from Node.prems have ne: "\<not> (ko \<noteq> None \<and> bytes_Equal ko k)"
    by (simp add: too_short_Node)
  show ?case
  proof (cases "index k nm")
    case (Inl e)
    then show ?thesis using ne index_Inl [OF Inl]
      by (subst add.simps) simp
  next
    case (Inr x)
    note ix = index_Inr [OF Inr]
    show ?thesis
    proof (cases "b AND x = 0")
      case True
      with Node.prems Inr obtain c where c: "l = Some c" "too_short c k"
        by (auto simp: too_short_Node split: option.splits)
      then have "add c k v = Some (Inl (IndexOutOfRange, c))"
        using Node.IH(1) [of c] by simp
      then show ?thesis using ne Inr True c
        by (subst add.simps) (simp add: in_left_def)
    next
      case False
      with Node.prems Inr obtain c where c: "r = Some c" "too_short c k"
        by (auto simp: too_short_Node split: option.splits)
      then have "add c k v = Some (Inl (IndexOutOfRange, c))"
        using Node.IH(2) [of c] by simp
      then show ?thesis using ne Inr False c
        by (subst add.simps) (simp add: in_right_def)
    qed
  qed
qed

section \<open>The empty trie\<close>

text \<open>C7: on a freshly constructed trie, \<open>Hash\<close> returns the digest of the empty input
  and \<open>MaxDepth\<close> returns 0.\<close>

theorem empty_trie_queries:
  "fst (Hash H NewMerkleTrie) = Inr (H []) \<and> fst (MaxDepth NewMerkleTrie) = 0"
  by (simp add: Hash_def MaxDepth_def NewMerkleTrie_def)

section \<open>The queries do not write\<close>

lemma hash_snd: "snd (hash H n) = n"
proof (induction n)
  case (Node lv b nm l r k v)
  then show ?case
    by (cases l; cases r) (simp_all add: case_prod_beta split: sum.splits)
qed

lemma max_depth_r_snd: "snd (max_depth_r n) = n"
proof (induction n)
  case (Node lv b nm l r k v)
  then show ?case
    by (cases l; cases r) (simp_all add: case_prod_beta)
qed

text \<open>C9: \<open>Hash\<close> and \<open>MaxDepth\<close> hand back the trie they were given, with every field
  of every node as it was.\<close>

theorem queries_read_only: "snd (Hash H t) = t \<and> snd (MaxDepth t) = t"
proof
  have "snd (hash H (root t)) = root t" by (rule hash_snd)
  then show "snd (Hash H t) = t" by (simp add: Hash_def case_prod_beta)
  have "snd (max_depth_r (root t)) = root t" by (rule max_depth_r_snd)
  then show "snd (MaxDepth t) = t" by (simp add: MaxDepth_def case_prod_beta)
qed

section \<open>The digest\<close>

lemma hash_refines_spec:
  "fst (hash H n) = (case spec_digest H n of Some d \<Rightarrow> Inr d | None \<Rightarrow> Inl NilDereference)"
proof (induction n)
  case (Node lv b nm l r k v)
  then show ?case
    by (cases l; cases r) (simp_all add: case_prod_beta split: sum.splits option.splits)
qed

text \<open>C2: on every trie that is not empty, \<open>Hash\<close> returns the digest the specification
  describes; where the specification gives no digest (a node without key and children is
  reached), the code dereferences a nil pointer.\<close>

theorem Hash_is_spec_digest:
  "\<not> empty t \<Longrightarrow>
   fst (Hash H t) = (case spec_digest H (root t) of Some d \<Rightarrow> Inr d | None \<Rightarrow> Inl NilDereference)"
  using hash_refines_spec [of H "root t"] by (simp add: Hash_def case_prod_beta)

theorem Hash_is_spec_digest_witness:
  "\<not> empty two_leaf_trie
   \<and> fst (Hash toy_hash two_leaf_trie) = Inr (toy_hash (toy_hash [7] @ toy_hash [8]))"
  using Hash_is_spec_digest [of two_leaf_trie toy_hash] by (simp add: two_leaf_trie_def)

section \<open>One step of \<open>add\<close>, and induction over its calls\<close>

lemma add_step:
  assumes "(if key n \<noteq> None \<and> bytes_Equal (key n) k then Some (Inr (set_val n v))
     else case index k (number n) of
       Inl e \<Rightarrow> Some (Inl (e, n))
     | Inr b \<Rightarrow>
         Option.bind
           (if nbit n AND b = 0
            then (case left n of
                    None \<Rightarrow> Some (Inr (set_left n (Some (newNode (level n + 1) k v))))
                  | Some c \<Rightarrow> Option.bind (f c k v) (\<lambda>r. Some (in_left n r)))
            else (case right n of
                    None \<Rightarrow> Some (Inr (set_right n (Some (newNode (level n + 1) k v))))
                  | Some c \<Rightarrow> Option.bind (f c k v) (\<lambda>r. Some (in_right n r))))
           (\<lambda>r. case r of
                  Inl p \<Rightarrow> Some (Inl p)
                | Inr n1 \<Rightarrow>
                    if key n1 \<noteq> None
                    then f (set_val (set_key n1 None) None) (key n1) (val n1)
                    else Some (Inr n1))) = Some r"
  obtains
    (Equal) "key n \<noteq> None" "bytes_Equal (key n) k" "r = Inr (set_val n v)"
  | (Panic) e where "\<not> (key n \<noteq> None \<and> bytes_Equal (key n) k)"
      "index k (number n) = Inl e" "r = Inl (e, n)"
  | (ChildPanic) b c e c' where "\<not> (key n \<noteq> None \<and> bytes_Equal (key n) k)"
      "index k (number n) = Inr b" "slot n b = Some c"
      "f c k v = Some (Inl (e, c'))" "r = Inl (e, set_slot n b (Some c'))"
  | (Fresh) b where "\<not> (key n \<noteq> None \<and> bytes_Equal (key n) k)"
      "index k (number n) = Inr b" "slot n b = None" "key n = None"
      "r = Inr (set_slot n b (Some (newNode (level n + 1) k v)))"
  | (FreshDemote) b where "\<not> bytes_Equal (key n) k"
      "index k (number n) = Inr b" "slot n b = None" "key n \<noteq> None"
      "f (set_val (set_key (set_slot n b (Some (newNode (level n + 1) k v))) None) None)
         (key n) (val n) = Some r"
  | (Child) b c c' where "\<not> (key n \<noteq> None \<and> bytes_Equal (key n) k)"
      "index k (number n) = Inr b" "slot n b = Some c"
      "f c k v = Some (Inr c')" "key n = None" "r = Inr (set_slot n b (Some c'))"
  | (ChildDemote) b c c' where "\<not> bytes_Equal (key n) k"
      "index k (number n) = Inr b" "slot n b = Some c"
      "f c k v = Some (Inr c')" "key n \<noteq> None"
      "f (set_val (set_key (set_slot n b (Some c')) None) None) (key n) (val n) = Some r"
proof (cases "key n \<noteq> None \<and> bytes_Equal (key n) k")
  case True
  with assms show ?thesis by (intro Equal) simp_all
next
  case ne: False
  show ?thesis
  proof (cases "index k (number n)")
    case (Inl e)
    with assms ne have "r = Inl (e, n)" by (auto split: if_splits)
    with ne Inl show ?thesis by (intro Panic [of e])
  next
    case (Inr b)
    define wrap :: "outcome \<Rightarrow> outcome" where
      "wrap = (if nbit n AND b = 0 then in_left n else in_right n)"
    have wrap_Inl: "wrap (Inl (e, c')) = Inl (e, set_slot n b (Some c'))"
      and wrap_Inr: "wrap (Inr c') = Inr (set_slot n b (Some c'))" for e c'
      by (simp_all add: wrap_def set_slot_def in_left_def in_right_def)
    define first where
      "first = (if nbit n AND b = 0
            then (case left n of
                    None \<Rightarrow> Some (Inr (set_left n (Some (newNode (level n + 1) k v))))
                  | Some c \<Rightarrow> Option.bind (f c k v) (\<lambda>r. Some (in_left n r)))
            else (case right n of
                    None \<Rightarrow> Some (Inr (set_right n (Some (newNode (level n + 1) k v))))
                  | Some c \<Rightarrow> Option.bind (f c k v) (\<lambda>r. Some (in_right n r))))"
    have first_None: "first = Some (Inr (set_slot n b (Some (newNode (level n + 1) k v))))"
      if "slot n b = None"
      using that by (cases "nbit n AND b = 0") (simp_all add: first_def slot_def set_slot_def)
    have first_Some: "first = Option.bind (f c k v) (\<lambda>r. Some (wrap r))"
      if "slot n b = Some c" for c
      using that by (cases "nbit n AND b = 0") (simp_all add: first_def slot_def wrap_def)
    have "Option.bind first
           (\<lambda>r. case r of
                  Inl p \<Rightarrow> Some (Inl p)
                | Inr n1 \<Rightarrow>
                    if key n1 \<noteq> None
                    then f (set_val (set_key n1 None) None) (key n1) (val n1)
                    else Some (Inr n1)) = Some r"
      using assms ne Inr unfolding first_def by (auto split: if_splits)
    then obtain r1 where r1: "first = Some r1"
      and r2: "(case r1 of
                  Inl p \<Rightarrow> Some (Inl p)
                | Inr n1 \<Rightarrow>
                    if key n1 \<noteq> None
                    then f (set_val (set_key n1 None) None) (key n1) (val n1)
                    else Some (Inr n1)) = Some r"
      by (auto simp: bind_eq_Some_conv)
    have keep: "key (set_slot n b c) = key n" "val (set_slot n b c) = val n" for c
      by (simp_all add: set_slot_def)
    show ?thesis
    proof (cases "slot n b")
      case None
      with r1 have r1': "r1 = Inr (set_slot n b (Some (newNode (level n + 1) k v)))"
        by (simp add: first_None)
      show ?thesis
      proof (cases "key n = None")
        case True
        with r2 r1' ne Inr None show ?thesis by (intro Fresh [of b]) (simp_all add: keep)
      next
        case False
        with r2 r1' ne Inr None show ?thesis by (intro FreshDemote [of b]) (simp_all add: keep)
      qed
    next
      case (Some c)
      with r1 obtain rc where rc: "f c k v = Some rc" and r1': "r1 = wrap rc"
        by (auto simp: first_Some bind_eq_Some_conv)
      show ?thesis
      proof (cases rc)
        case (Inl p)
        obtain e c' where p: "p = (e, c')" by (cases p)
        with r2 r1' rc Inl ne Inr Some show ?thesis
          by (intro ChildPanic [of b c e c']) (simp_all add: wrap_Inl)
      next
        case (Inr c')
        note rcr = this
        show ?thesis
        proof (cases "key n = None")
          case True
          with r2 r1' rc rcr ne \<open>index k (number n) = Inr b\<close> Some show ?thesis
            by (intro Child [of b c c']) (simp_all add: wrap_Inr keep)
        next
          case False
          with r2 r1' rc rcr ne \<open>index k (number n) = Inr b\<close> Some show ?thesis
            by (intro ChildDemote [of b c c']) (simp_all add: wrap_Inr keep)
        qed
      qed
    qed
  qed
qed

lemma add_induct [consumes 1, case_names Equal Panic ChildPanic Fresh FreshDemote Child ChildDemote]:
  assumes "add n k v = Some r"
    and "\<And>n k v. key n \<noteq> None \<Longrightarrow> bytes_Equal (key n) k \<Longrightarrow> P n k v (Inr (set_val n v))"
    and "\<And>n k v e. \<not> (key n \<noteq> None \<and> bytes_Equal (key n) k) \<Longrightarrow>
           index k (number n) = Inl e \<Longrightarrow> P n k v (Inl (e, n))"
    and "\<And>n k v b c e c'. \<not> (key n \<noteq> None \<and> bytes_Equal (key n) k) \<Longrightarrow>
           index k (number n) = Inr b \<Longrightarrow> slot n b = Some c \<Longrightarrow>
           P c k v (Inl (e, c')) \<Longrightarrow> P n k v (Inl (e, set_slot n b (Some c')))"
    and "\<And>n k v b. \<not> (key n \<noteq> None \<and> bytes_Equal (key n) k) \<Longrightarrow>
           index k (number n) = Inr b \<Longrightarrow> slot n b = None \<Longrightarrow> key n = None \<Longrightarrow>
           P n k v (Inr (set_slot n b (Some (newNode (level n + 1) k v))))"
    and "\<And>n k v b r. \<not> bytes_Equal (key n) k \<Longrightarrow>
           index k (number n) = Inr b \<Longrightarrow> slot n b = None \<Longrightarrow> key n \<noteq> None \<Longrightarrow>
           P (set_val (set_key (set_slot n b (Some (newNode (level n + 1) k v))) None) None)
             (key n) (val n) r \<Longrightarrow> P n k v r"
    and "\<And>n k v b c c'. \<not> (key n \<noteq> None \<and> bytes_Equal (key n) k) \<Longrightarrow>
           index k (number n) = Inr b \<Longrightarrow> slot n b = Some c \<Longrightarrow>
           P c k v (Inr c') \<Longrightarrow> key n = None \<Longrightarrow> P n k v (Inr (set_slot n b (Some c')))"
    and "\<And>n k v b c c' r. \<not> bytes_Equal (key n) k \<Longrightarrow>
           index k (number n) = Inr b \<Longrightarrow> slot n b = Some c \<Longrightarrow>
           P c k v (Inr c') \<Longrightarrow> key n \<noteq> None \<Longrightarrow>
           P (set_val (set_key (set_slot n b (Some c')) None) None) (key n) (val n) r \<Longrightarrow>
           P n k v r"
  shows "P n k v r"
proof (rule add.raw_induct [where P = P, OF _ assms(1)])
  fix f n k v r
  assume IH: "\<And>n k v r. f n k v = Some r \<Longrightarrow> P n k v r"
  assume body: "(if key n \<noteq> None \<and> bytes_Equal (key n) k then Some (Inr (set_val n v))
     else case index k (number n) of
       Inl e \<Rightarrow> Some (Inl (e, n))
     | Inr b \<Rightarrow>
         Option.bind
           (if nbit n AND b = 0
            then (case left n of
                    None \<Rightarrow> Some (Inr (set_left n (Some (newNode (level n + 1) k v))))
                  | Some c \<Rightarrow> Option.bind (f c k v) (\<lambda>r. Some (in_left n r)))
            else (case right n of
                    None \<Rightarrow> Some (Inr (set_right n (Some (newNode (level n + 1) k v))))
                  | Some c \<Rightarrow> Option.bind (f c k v) (\<lambda>r. Some (in_right n r))))
           (\<lambda>r. case r of
                  Inl p \<Rightarrow> Some (Inl p)
                | Inr n1 \<Rightarrow>
                    if key n1 \<noteq> None
                    then f (set_val (set_key n1 None) None) (key n1) (val n1)
                    else Some (Inr n1))) = Some r"
  from body show "P n k v r"
  proof (cases rule: add_step)
    case Equal
    then show ?thesis using assms(2) by simp
  next
    case (Panic e)
    then show ?thesis using assms(3) by simp
  next
    case (ChildPanic b c e c')
    then show ?thesis using assms(4) [of n k b c v e c'] IH by simp
  next
    case (Fresh b)
    then show ?thesis using assms(5) [of n k b v] by simp
  next
    case (FreshDemote b)
    then show ?thesis using assms(6) [of n k b v r] IH by simp
  next
    case (Child b c c')
    then show ?thesis using assms(7) [of n k b c v c'] IH by simp
  next
    case (ChildDemote b c c')
    then show ?thesis using assms(8) [of n k b c v c' r] IH by simp
  qed
qed

section \<open>Keys that are too short\<close>

text \<open>C4, as the code has it: the key is not validated before the first write. A failure
  met while the new key still walks down existing nodes leaves the trie as it was; a
  failure met later, when a demoted leaf is inserted again, leaves the writes made so far.
  Here \<open>[0]\<close> is inserted after \<open>[0, 1]\<close>: the call panics at byte index 1 and the trie
  has changed.\<close>

theorem failed_Add_mutates_counterexample:
  "Add NewMerkleTrie (Some [0, 1]) (Some [7]) = Some (Inr long_key_trie)
   \<and> Add long_key_trie (Some [0]) (Some [8]) = Some (Inl (IndexOutOfRange, broken_trie))
   \<and> broken_trie \<noteq> long_key_trie"
  by (simp add: long_key_trie_def broken_trie_def eval_defs add.simps)

text \<open>C4 (amended): when the key is too short for an index its walk down the existing
  nodes requires, the failed \<open>Add\<close> leaves the trie exactly as it was.\<close>

theorem failed_descent_keeps_trie:
  "\<not> empty t \<Longrightarrow> too_short (root t) k \<Longrightarrow> Add t k v = Some (Inl (IndexOutOfRange, t))"
  using add_too_short [of "root t" k v] by (simp add: Add_def)

theorem failed_descent_keeps_trie_witness:
  "\<not> empty deep_trie \<and> too_short (root deep_trie) (Some [0])
   \<and> Add deep_trie (Some [0]) (Some [9]) = Some (Inl (IndexOutOfRange, deep_trie))"
  using failed_descent_keeps_trie [of deep_trie "Some [0]" "Some [9]"]
  by (simp add: deep_trie_def too_short_def eval_defs add.simps)

section \<open>Leaves and internal nodes\<close>

lemma add_keeps_node_ok:
  assumes "add n k v = Some r"
  shows "all_nodes node_ok n \<longrightarrow> k \<noteq> None \<longrightarrow> v \<noteq> None \<longrightarrow>
         (\<forall>n'. r = Inr n' \<longrightarrow> all_nodes node_ok n')"
  using assms
proof (induction rule: add_induct)
  case (Equal n k v)
  then show ?case by (auto simp: all_nodes_sel [of _ "set_val _ _"] all_nodes_sel [of _ n] node_ok_def)
next
  case (Panic n k v e)
  then show ?case by simp
next
  case (ChildPanic n k v b c e c')
  then show ?case by simp
next
  case (Fresh n k v b)
  then show ?case
    by (auto simp: all_nodes_sel [of _ "set_left _ _"] all_nodes_sel [of _ "set_right _ _"]
        all_nodes_sel [of _ "newNode _ _ _"] all_nodes_sel [of _ n] node_ok_def set_slot_def)
next
  case (FreshDemote n k v b r)
  then show ?case
    by (auto simp: all_nodes_sel [of _ "set_val _ _"]
        all_nodes_sel [of _ "newNode _ _ _"] all_nodes_sel [of _ n] node_ok_def set_slot_def slot_def split: if_splits)
next
  case (Child n k v b c c')
  then show ?case
    by (auto simp: all_nodes_sel [of _ "set_left _ _"] all_nodes_sel [of _ "set_right _ _"]
        all_nodes_sel [of _ n] node_ok_def set_slot_def slot_def split: if_splits)
next
  case (ChildDemote n k v b c c' r)
  then show ?case
    by (auto simp: all_nodes_sel [of _ n] node_ok_def slot_def split: if_splits)
qed

lemma AddAll_keeps_node_ok:
  assumes "AddAll t kvs = Some (Inr t')"
    and "\<forall>(k, v) \<in> set kvs. k \<noteq> None \<and> v \<noteq> None"
    and "all_nodes node_ok (root t)"
    and "empty t \<longrightarrow> left (root t) = None \<and> right (root t) = None"
  shows "all_nodes node_ok (root t')"
  using assms
proof (induction kvs arbitrary: t)
  case Nil
  then show ?case by simp
next
  case (Cons kv kvs)
  obtain k v where kv: "kv = (k, v)" by (cases kv)
  from Cons.prems(1) kv obtain t1 where t1: "Add t k v = Some (Inr t1)"
    and rest: "AddAll t1 kvs = Some (Inr t')"
    by (auto split: option.splits sum.splits)
  from Cons.prems(2) kv have nn: "k \<noteq> None" "v \<noteq> None" by auto
  have "all_nodes node_ok (root t1) \<and> \<not> empty t1"
  proof (cases "empty t")
    case True
    with t1 Cons.prems(4) nn show ?thesis
      by (auto simp: Add_def all_nodes_sel [of _ "set_val _ _"] node_ok_def)
  next
    case False
    with t1 obtain r where r: "add (root t) k v = Some r"
      and w: "(case r of Inl (e, n) \<Rightarrow> Inl (e, t\<lparr>root := n\<rparr>) | Inr n \<Rightarrow> Inr (t\<lparr>root := n\<rparr>))
              = Inr t1"
      by (auto simp: Add_def bind_eq_Some_conv)
    from w obtain n1 where "r = Inr n1" and "t1 = t\<lparr>root := n1\<rparr>"
      by (cases r) (auto split: prod.splits)
    with r add_keeps_node_ok [of "root t" k v "Inr n1"] Cons.prems(3) nn False
    show ?thesis by simp
  qed
  with Cons.IH [OF rest] Cons.prems(2) show ?case by simp
qed

text \<open>C8, as the code has it: \<open>Add\<close> stores whatever slices it is given. After inserting
  the key \<open>[0]\<close> with a nil value the root has its key set and its value unset.\<close>

theorem nil_value_leaf_counterexample:
  "AddAll NewMerkleTrie [(Some [0], None)] = Some (Inr nil_value_trie)
   \<and> \<not> all_nodes node_ok (root nil_value_trie)"
  by (simp add: nil_value_trie_def node_ok_def eval_defs)

text \<open>C8 (amended): after every sequence of successful insertions whose keys and values
  are not nil, every node either has key and value set and no children, or has key and
  value unset.\<close>

theorem nodes_are_leaf_or_internal:
  assumes "list_all (\<lambda>(k, v). k \<noteq> None \<and> v \<noteq> None) kvs"
    and "AddAll NewMerkleTrie kvs = Some (Inr t)"
  shows "all_nodes node_ok (root t)"
proof -
  from assms(1) have "\<forall>(k, v) \<in> set kvs. k \<noteq> None \<and> v \<noteq> None"
    by (simp add: list_all_iff)
  from AddAll_keeps_node_ok [OF assms(2) this] show ?thesis
    by (simp add: NewMerkleTrie_def newNode_def node_ok_def)
qed

theorem nodes_are_leaf_or_internal_witness:
  "list_all (\<lambda>(k, v). k \<noteq> None \<and> v \<noteq> None) two_pairs
   \<and> AddAll NewMerkleTrie two_pairs = Some (Inr two_leaf_trie)
   \<and> all_nodes node_ok (root two_leaf_trie)"
proof -
  have run: "AddAll NewMerkleTrie two_pairs = Some (Inr two_leaf_trie)"
    by (simp add: two_pairs_def two_leaf_trie_def eval_defs add.simps)
  have nn: "list_all (\<lambda>(k, v). k \<noteq> None \<and> v \<noteq> None) two_pairs"
    by (simp add: two_pairs_def)
  have ok: "all_nodes node_ok (root two_leaf_trie)"
    by (rule nodes_are_leaf_or_internal [OF nn run])
  show ?thesis by (rule conjI [OF nn conjI [OF run ok]])
qed

section \<open>The tree of a list of pairs\<close>

lemma in_slot_simps [simp]:
  "in_slot n b (Inl (e, c)) = Inl (e, set_slot n b (Some c))"
  "in_slot n b (Inr c) = Inr (set_slot n b (Some c))"
  by (simp_all add: in_slot_def set_slot_def in_left_def in_right_def)

lemma set_slot_sel [simp]:
  "level (set_slot n b c) = level n" "nbit (set_slot n b c) = nbit n"
  "number (set_slot n b c) = number n" "key (set_slot n b c) = key n" "val (set_slot n b c) = val n"
  by (simp_all add: set_slot_def)

lemma add_internal:
  assumes "key n = None" "index k (number n) = Inr b"
  shows "add n k v =
    (case slot n b of
       None \<Rightarrow> Some (Inr (set_slot n b (Some (newNode (level n + 1) k v))))
     | Some c \<Rightarrow> Option.bind (add c k v) (\<lambda>rc. Some (in_slot n b rc)))"
proof (cases "slot n b")
  case None
  then show ?thesis using assms
    by (subst add.simps) (auto simp: slot_def set_slot_def split: if_splits)
next
  case (Some c)
  show ?thesis
  proof (cases "add c k v")
    case None
    with Some assms show ?thesis
      by (subst add.simps) (auto simp: slot_def split: if_splits)
  next
    case rc: (Some rc)
    show ?thesis
    proof (cases rc)
      case (Inl p)
      with rc Some assms show ?thesis
        by (subst add.simps) (cases p, auto simp: slot_def set_slot_def in_left_def in_right_def split: if_splits)
    next
      case (Inr c')
      with rc Some assms show ?thesis
        by (subst add.simps) (auto simp: slot_def set_slot_def in_left_def in_right_def split: if_splits)
    qed
  qed
qed

lemma add_leaf:
  assumes "key n \<noteq> None" "\<not> bytes_Equal (key n) k" "index k (number n) = Inr b"
    and "left n = None" "right n = None"
  shows "add n k v =
    add (set_val (set_key (set_slot n b (Some (newNode (level n + 1) k v))) None) None) (key n) (val n)"
  using assms
  by (subst add.simps) (auto simp: slot_def set_slot_def split: if_splits)

lemma unat_byte_of_nat: "L < 256 \<Longrightarrow> unat (of_nat L :: byte) = L"
  by (simp add: unat_of_nat)

lemma unat_level_mod: "L < 256 \<Longrightarrow> unat ((of_nat L :: byte) mod 8) = L mod 8"
  by (simp add: unat_mod unat_byte_of_nat)

lemma unat_level_div: "L < 256 \<Longrightarrow> unat ((of_nat L :: byte) div 8) = L div 8"
  by (simp add: unat_div unat_byte_of_nat)

lemma index_at_level:
  "L < 256 \<Longrightarrow> L div 8 < slice_len k \<Longrightarrow>
   index k ((of_nat L :: byte) div 8) = Inr (slice_bytes k ! (L div 8))"
  by (simp add: index_def unat_level_div)

lemma diverge_bounds:
  assumes "diverge L k1 k2"
  shows "L < 256" "L div 8 < slice_len k1" "L div 8 < slice_len k2" "\<not> bytes_Equal k1 k2"
  using assms by (auto simp: diverge_def bytes_Equal_def goes_left_def)

lemma diverge_Suc:
  assumes "diverge L k1 k2" "goes_left L k1 = goes_left L k2"
  shows "diverge (Suc L) k1 k2"
proof -
  from assms(1) [unfolded diverge_def] obtain i
    where i: "i \<in> {L ..< min 256 (min (8 * slice_len k1) (8 * slice_len k2))}"
      and d: "goes_left i k1 \<noteq> goes_left i k2"
    by blast
  with assms(2) have "i \<noteq> L" by auto
  with i have "i \<in> {Suc L ..< min 256 (min (8 * slice_len k1) (8 * slice_len k2))}" by simp
  with d show ?thesis unfolding diverge_def by blast
qed

lemma diverge_sym: "diverge L k1 k2 \<Longrightarrow> diverge L k2 k1"
  by (auto simp: diverge_def)

lemma sep_filter:
  assumes "sep L kvs"
  shows "sep (Suc L) (filter (\<lambda>kv. goes_left L (fst kv)) kvs)"
    and "sep (Suc L) (filter (\<lambda>kv. \<not> goes_left L (fst kv)) kvs)"
  using assms by (force simp: sep_def distinct_map_filter intro: diverge_Suc)+

lemma sep_mset: "mset xs = mset ys \<Longrightarrow> sep L xs = sep L ys"
proof -
  assume m: "mset xs = mset ys"
  then have "mset (map fst xs) = mset (map fst ys)" by simp
  then have "distinct (map fst xs) = distinct (map fst ys)" "set (map fst xs) = set (map fst ys)"
    by (metis mset_eq_imp_distinct_iff, metis mset_eq_setD)
  then show ?thesis unfolding sep_def by simp
qed

lemma build_unfold:
  "build c L kvs =
    (if kvs = [] then None
     else if length kvs = 1 then Some (newNode (of_nat L) (fst (hd kvs)) (snd (hd kvs)))
     else case c of
        0 \<Rightarrow> None
      | Suc c' \<Rightarrow>
          Some (set_right (set_left (newNode (of_nat L) None None)
                 (build c' (Suc L) (filter (\<lambda>kv. goes_left L (fst kv)) kvs)))
                 (build c' (Suc L) (filter (\<lambda>kv. \<not> goes_left L (fst kv)) kvs))))"
  by (cases c; cases kvs) (auto simp: length_Suc_conv split: list.splits)

lemma build_mset: "mset xs = mset ys \<Longrightarrow> build c L xs = build c L ys"
proof (induction c arbitrary: L xs ys)
  case 0
  from 0 have len: "length xs = length ys" by (metis size_mset)
  show ?case
  proof (cases "length xs = 1")
    case True
    then obtain a where "xs = [a]" by (auto simp: length_Suc_conv)
    with 0 have "ys = [a]" by simp
    with \<open>xs = [a]\<close> show ?thesis by simp
  next
    case False
    with len show ?thesis by (subst (1 2) build_unfold) auto
  qed
next
  case (Suc c)
  from Suc.prems have len: "length xs = length ys" by (metis size_mset)
  show ?case
  proof (cases "length xs = 1")
    case True
    then obtain a where "xs = [a]" by (auto simp: length_Suc_conv)
    with Suc.prems have "ys = [a]" by simp
    with \<open>xs = [a]\<close> show ?thesis by simp
  next
    case False
    have "build c (Suc L) (filter P xs) = build c (Suc L) (filter P ys)" for P
      by (rule Suc.IH) (simp add: Suc.prems)
    with False len show ?thesis by (subst (1 2) build_unfold) auto
  qed
qed

lemma sep_Cons:
  "sep L ((k, v) # kvs) \<Longrightarrow> sep L kvs \<and> (\<forall>kv \<in> set kvs. diverge L k (fst kv))"
  by (auto simp: sep_def)

lemma build_single: "build c L [(k, v)] = Some (newNode (of_nat L) k v)"
  by (cases c) simp_all

lemma nbit_test:
  "L < 256 \<Longrightarrow>
   (push_bit (7 - unat ((of_nat L :: byte) mod 8)) 1 AND slice_bytes k ! (L div 8) = 0) = goes_left L k"
  by (simp add: goes_left_def unat_level_mod)

lemma build_Nil [simp]: "build c L [] = None"
  by (cases c) simp_all

lemma add_build:
  assumes "L + c = 256" "sep L ((k, v) # kvs)" "kvs \<noteq> []"
  shows "\<exists>n n'. build c L kvs = Some n \<and> build c L ((k, v) # kvs) = Some n'
           \<and> add n k v = Some (Inr n')"
  using assms
proof (induction c arbitrary: L kvs k v)
  case 0
  from 0 obtain kv where "kv \<in> set kvs" by (cases kvs) auto
  with sep_Cons [OF 0(2)] have "diverge L k (fst kv)" by auto
  from diverge_bounds(1) [OF this] 0(1) show ?case by simp
next
  case (Suc c)
  have L: "L < 256" using Suc.prems(1) by simp
  have LS: "Suc L + c = 256" using Suc.prems(1) by simp
  note s = sep_Cons [OF Suc.prems(2)]
  from Suc.prems(3) obtain kv0 where "kv0 \<in> set kvs" by (cases kvs) auto
  with s have "diverge L k (fst kv0)" by auto
  from diverge_bounds(2) [OF this] have kb: "L div 8 < slice_len k" .
  define B where "B = slice_bytes k ! (L div 8)"
  have ik: "index k ((of_nat L :: byte) div 8) = Inr B"
    unfolding B_def by (rule index_at_level [OF L kb])
  have tB: "(push_bit (7 - unat ((of_nat L :: byte) mod 8)) 1 AND B = 0) = goes_left L k"
    unfolding B_def by (rule nbit_test [OF L])
  define N where "N = newNode (of_nat L) None None"
  show ?case
  proof (cases "length kvs = 1")
    case True
    then obtain kvo where "kvs = [kvo]" by (auto simp: length_Suc_conv)
    then obtain ko vo where kvs: "kvs = [(ko, vo)]" by (cases kvo) auto
    from s kvs have d: "diverge L k ko" by simp
    note db = diverge_bounds [OF d]
    have ko_ne: "ko \<noteq> None" using db(3) by (cases ko) (simp_all add: slice_len_def)
    have neq: "\<not> bytes_Equal ko k" using db(4) by (simp add: bytes_Equal_def eq_commute)
    define Bo where "Bo = slice_bytes ko ! (L div 8)"
    have iko: "index ko ((of_nat L :: byte) div 8) = Inr Bo"
      unfolding Bo_def by (rule index_at_level [OF L db(3)])
    have tBo: "(push_bit (7 - unat ((of_nat L :: byte) mod 8)) 1 AND Bo = 0) = goes_left L ko"
      unfolding Bo_def by (rule nbit_test [OF L])
    define n where "n = newNode (of_nat L) ko vo"
    have b1: "build (Suc c) L kvs = Some n" by (simp add: kvs n_def)
    define n2 where "n2 = set_slot N B (Some (newNode (of_nat (Suc L)) k v))"
    have "add n k v =
      add (set_val (set_key (set_slot n B (Some (newNode (level n + 1) k v))) None) None) (key n) (val n)"
      by (rule add_leaf) (use ko_ne neq ik in \<open>simp_all add: n_def\<close>)
    also have "set_val (set_key (set_slot n B (Some (newNode (level n + 1) k v))) None) None = n2"
      by (simp add: n_def n2_def N_def newNode_def set_slot_def add.commute)
    finally have step1: "add n k v = add n2 ko vo" by (simp add: n_def)
    have n2_sel: "key n2 = None" "number n2 = of_nat L div 8" "level n2 = of_nat L"
      by (simp_all add: n2_def N_def)
    have step2: "add n2 ko vo =
      (case slot n2 Bo of
         None \<Rightarrow> Some (Inr (set_slot n2 Bo (Some (newNode (level n2 + 1) ko vo))))
       | Some c \<Rightarrow> Option.bind (add c ko vo) (\<lambda>rc. Some (in_slot n2 Bo rc)))"
      by (rule add_internal) (use n2_sel iko in simp_all)
    show ?thesis
    proof (cases "goes_left L ko = goes_left L k")
      case same: True
      have sl: "slot n2 Bo = Some (newNode (of_nat (Suc L)) k v)"
        using same tB tBo by (simp add: slot_def n2_def N_def set_slot_def newNode_def)
      from diverge_Suc [OF d] same have d': "diverge (Suc L) k ko" by simp
      have "sep (Suc L) ((ko, vo) # [(k, v)])"
        using d' db(4) by (auto simp: sep_def diverge_sym bytes_Equal_def)
      from Suc.IH [OF LS this] obtain m m' where m: "build c (Suc L) [(k, v)] = Some m"
        and m': "build c (Suc L) [(ko, vo), (k, v)] = Some m'"
        and am: "add m ko vo = Some (Inr m')" by auto
      from m have meq: "m = newNode (of_nat (Suc L)) k v" by (simp add: build_single)
      have res: "add n k v = Some (Inr (set_slot n2 Bo (Some m')))"
        using step1 step2 sl am meq by simp
      have "build c (Suc L) [(k, v), (ko, vo)] = Some m'"
        using m' build_mset [of "[(k, v), (ko, vo)]" "[(ko, vo), (k, v)]" c "Suc L"] by simp
      then have "build (Suc c) L ((k, v) # kvs) = Some (set_slot n2 Bo (Some m'))"
        using same tB tBo
        by (auto simp: kvs n2_def N_def set_slot_def newNode_def)
      with b1 res show ?thesis by simp
    next
      case other: False
      have sl: "slot n2 Bo = None"
        using other tB tBo by (auto simp: slot_def n2_def N_def set_slot_def newNode_def)
      have res: "add n k v = Some (Inr (set_slot n2 Bo (Some (newNode (of_nat (Suc L)) ko vo))))"
        using step1 step2 sl n2_sel by (simp add: add.commute)
      have "build (Suc c) L ((k, v) # kvs) = Some (set_slot n2 Bo (Some (newNode (of_nat (Suc L)) ko vo)))"
        using other tB tBo
        by (auto simp: kvs n2_def N_def set_slot_def newNode_def build_single)
      with b1 res show ?thesis by simp
    qed
  next
    case False
    with Suc.prems(3) have len2: "length kvs \<noteq> 1" "kvs \<noteq> []" by simp_all
    define F where "F = filter (\<lambda>kv. goes_left L (fst kv) = goes_left L k) kvs"
    define G where "G = filter (\<lambda>kv. goes_left L (fst kv) \<noteq> goes_left L k) kvs"
    define n where "n = set_right (set_left N
                 (build c (Suc L) (filter (\<lambda>kv. goes_left L (fst kv)) kvs)))
                 (build c (Suc L) (filter (\<lambda>kv. \<not> goes_left L (fst kv)) kvs))"
    have b1: "build (Suc c) L kvs = Some n"
      using len2 by (subst build_unfold) (simp add: n_def N_def)
    have FG: "(if goes_left L k then filter (\<lambda>kv. goes_left L (fst kv)) kvs
               else filter (\<lambda>kv. \<not> goes_left L (fst kv)) kvs) = F"
      by (simp add: F_def)
    have sl: "slot n B = build c (Suc L) F"
      using tB FG by (auto simp: slot_def n_def N_def newNode_def)
    have n_sel: "key n = None" "number n = of_nat L div 8" "level n = of_nat L"
      by (simp_all add: n_def N_def)
    have step: "add n k v =
      (case slot n B of
         None \<Rightarrow> Some (Inr (set_slot n B (Some (newNode (level n + 1) k v))))
       | Some c \<Rightarrow> Option.bind (add c k v) (\<lambda>rc. Some (in_slot n B rc)))"
      by (rule add_internal) (use n_sel ik in simp_all)
    have b2: "build (Suc c) L ((k, v) # kvs) =
      Some (set_slot n B (build c (Suc L) ((k, v) # F)))"
      using len2 tB
      by (subst build_unfold) (auto simp: n_def N_def F_def set_slot_def newNode_def)
    show ?thesis
    proof (cases "F = []")
      case True
      with sl step n_sel have "add n k v = Some (Inr (set_slot n B (Some (newNode (of_nat (Suc L)) k v))))"
        by (simp add: add.commute)
      with b1 b2 True show ?thesis by (simp add: build_single)
    next
      case Fne: False
      have "sep (Suc L) (filter (\<lambda>kv. goes_left L (fst kv) = goes_left L k) ((k, v) # kvs))"
        using sep_filter [OF Suc.prems(2)] by (cases "goes_left L k") simp_all
      then have "sep (Suc L) ((k, v) # F)" by (simp add: F_def)
      from Suc.IH [OF LS this Fne] obtain m m' where m: "build c (Suc L) F = Some m"
        and m': "build c (Suc L) ((k, v) # F) = Some m'"
        and am: "add m k v = Some (Inr m')" by auto
      from sl step m am have "add n k v = Some (Inr (set_slot n B (Some m')))" by simp
      with b1 b2 m' show ?thesis by simp
    qed
  qed
qed

section \<open>Insertion order\<close>

lemma diverge_irrefl: "\<not> diverge L k k"
  by (simp add: diverge_def)

lemma separated_sep: "separated kvs \<Longrightarrow> sep 0 kvs"
proof (induction kvs)
  case Nil
  then show ?case by (simp add: sep_def)
next
  case (Cons kv kvs)
  then have d: "\<forall>kv' \<in> set kvs. diverge 0 (fst kv) (fst kv')" and s: "sep 0 kvs"
    by (simp_all add: list_all_iff)
  from d have "fst kv \<notin> fst ` set kvs" using diverge_irrefl by force
  with d s show ?case by (auto simp: sep_def dest: diverge_sym)
qed

lemma diverge_at:
  "L \<le> i \<Longrightarrow> i < 256 \<Longrightarrow> i < 8 * slice_len k1 \<Longrightarrow> i < 8 * slice_len k2 \<Longrightarrow>
   goes_left i k1 \<noteq> goes_left i k2 \<Longrightarrow> diverge L k1 k2"
  unfolding diverge_def by (rule bexI [of _ i]) simp_all

lemma sep_sub: "sep L (xs @ ys) \<Longrightarrow> sep L ys"
  by (auto simp: sep_def)

lemma AddAll_build:
  assumes "sep 0 (kvs @ acc)" "acc \<noteq> []" "build 256 0 acc = Some (root t)" "\<not> empty t"
  shows "\<exists>n. build 256 0 (kvs @ acc) = Some n \<and> AddAll t kvs = Some (Inr (t\<lparr>root := n\<rparr>))"
  using assms
proof (induction kvs arbitrary: acc t)
  case Nil
  then show ?case by simp
next
  case (Cons kv kvs)
  obtain k v where kv: "kv = (k, v)" by (cases kv)
  have m1: "mset (kvs @ (k, v) # acc) = mset ((kv # kvs) @ acc)" by (simp add: kv)
  from Cons.prems(1) have s1: "sep 0 (kvs @ (k, v) # acc)"
    using sep_mset [OF m1, of 0] by simp
  then have s2: "sep 0 ((k, v) # acc)" by (rule sep_sub)
  from add_build [of 0 256 k v acc, OF _ s2 Cons.prems(2)] Cons.prems(3)
  obtain n1 where n1: "build 256 0 ((k, v) # acc) = Some n1"
    and a1: "add (root t) k v = Some (Inr n1)" by auto
  from a1 Cons.prems(4) have A: "Add t k v = Some (Inr (t\<lparr>root := n1\<rparr>))"
    by (simp add: Add_def)
  from Cons.IH [of "(k, v) # acc" "t\<lparr>root := n1\<rparr>", OF s1] n1 Cons.prems(4)
  obtain n where n: "build 256 0 (kvs @ (k, v) # acc) = Some n"
    and r: "AddAll (t\<lparr>root := n1\<rparr>) kvs = Some (Inr (t\<lparr>root := n\<rparr>))" by auto
  from n build_mset [OF m1, of 256 0] have "build 256 0 ((kv # kvs) @ acc) = Some n" by simp
  with A r kv show ?case by simp
qed

lemma AddAll_from_empty:
  assumes "sep 0 kvs" "kvs \<noteq> []"
  shows "\<exists>n. build 256 0 kvs = Some n
            \<and> AddAll NewMerkleTrie kvs = Some (Inr \<lparr>root = n, empty = False\<rparr>)"
proof -
  from assms(2) obtain k v rest where kvs: "kvs = (k, v) # rest" by (cases kvs) auto
  define t where "t = \<lparr>root = newNode 0 k v, empty = False\<rparr>"
  have A: "Add NewMerkleTrie k v = Some (Inr t)"
    by (simp add: Add_def NewMerkleTrie_def newNode_def t_def)
  have m1: "mset (rest @ [(k, v)]) = mset kvs" by (simp add: kvs)
  from assms(1) sep_mset [OF m1, of 0] have s: "sep 0 (rest @ [(k, v)])" by simp
  have b: "build 256 0 [(k, v)] = Some (root t)" by (simp add: build_single t_def)
  from AddAll_build [OF s _ b] obtain n where n: "build 256 0 (rest @ [(k, v)]) = Some n"
    and r: "AddAll t rest = Some (Inr (t\<lparr>root := n\<rparr>))" by (auto simp: t_def)
  from n build_mset [OF m1, of 256 0] have "build 256 0 kvs = Some n" by simp
  with A r show ?thesis by (simp add: kvs t_def)
qed

text \<open>C1 (amended): when every two keys differ at a bit that both keys have and that lies
  below bit 256, inserting the pairs in any order succeeds and gives the same trie, hence
  the same digest and the same depth.\<close>

theorem insertion_order_irrelevant:
  assumes "separated kvs" and "mset kvs' = mset kvs"
  shows "\<exists>t t'. AddAll NewMerkleTrie kvs = Some (Inr t)
            \<and> AddAll NewMerkleTrie kvs' = Some (Inr t')
            \<and> t' = t
            \<and> fst (Hash H t') = fst (Hash H t)
            \<and> fst (MaxDepth t') = fst (MaxDepth t)"
proof (cases "kvs = []")
  case True
  with assms(2) show ?thesis by simp
next
  case False
  with assms(2) have ne: "kvs' \<noteq> []" by auto
  from assms have s: "sep 0 kvs" "sep 0 kvs'"
    using sep_mset [OF assms(2), of 0] separated_sep [of kvs] by simp_all
  from AddAll_from_empty [OF s(1) False] obtain n where n: "build 256 0 kvs = Some n"
    and r: "AddAll NewMerkleTrie kvs = Some (Inr \<lparr>root = n, empty = False\<rparr>)" by auto
  from AddAll_from_empty [OF s(2) ne] obtain n' where n': "build 256 0 kvs' = Some n'"
    and r': "AddAll NewMerkleTrie kvs' = Some (Inr \<lparr>root = n', empty = False\<rparr>)" by auto
  from n n' build_mset [OF assms(2), of 256 0] have "n' = n" by simp
  with r r' show ?thesis by simp
qed

theorem insertion_order_irrelevant_witness:
  "separated three_pairs \<and> mset three_pairs' = mset three_pairs
   \<and> (\<exists>t t'. AddAll NewMerkleTrie three_pairs = Some (Inr t)
            \<and> AddAll NewMerkleTrie three_pairs' = Some (Inr t')
            \<and> t' = t
            \<and> fst (Hash toy_hash t') = fst (Hash toy_hash t)
            \<and> fst (MaxDepth t') = fst (MaxDepth t))"
proof -
  have d1: "diverge 0 (Some [0, 1]) (Some [128, 1])"
    by (rule diverge_at [of 0 0]) (simp_all add: goes_left_def slice_len_def)
  have d2: "diverge 0 (Some [0, 1]) (Some [0, 3])"
    by (rule diverge_at [of 0 14]) (simp_all add: goes_left_def slice_len_def)
  have d3: "diverge 0 (Some [128, 1]) (Some [0, 3])"
    by (rule diverge_at [of 0 0]) (simp_all add: goes_left_def slice_len_def)
  have s: "separated three_pairs"
    using d1 d2 d3 by (simp add: three_pairs_def)
  have m: "mset three_pairs' = mset three_pairs"
    by (simp add: three_pairs_def three_pairs'_def)
  show ?thesis
    by (rule conjI [OF s conjI [OF m insertion_order_irrelevant [OF s m]]])
qed

section \<open>Keys that agree on their first 32 bytes\<close>

lemma number_newNode: "unat (number (newNode lv k v)) < 32"
proof -
  have "unat lv < 256" using unsigned_less [of lv] by simp
  then show ?thesis by (simp add: unat_div)
qed

lemma add_collision_never_returns:
  assumes "add n k v = Some r"
  shows "\<not> (colliding_leaf n k \<or> above_colliding_leaf n k)"
  using assms
proof (induction rule: add_induct)
  case (Equal n k v)
  then show ?case
    by (auto simp: colliding_leaf_def above_colliding_leaf_def same_prefix_def bytes_Equal_def)
next
  case (Panic n k v e)
  then show ?case
    by (auto simp: colliding_leaf_def above_colliding_leaf_def same_prefix_def index_def
        split: if_splits)
next
  case (ChildPanic n k v b c e c')
  then show ?case
    by (auto simp: colliding_leaf_def above_colliding_leaf_def index_def slot_def split: if_splits)
next
  case (Fresh n k v b)
  then show ?case
    by (auto simp: colliding_leaf_def above_colliding_leaf_def index_def split: if_splits)
next
  case (FreshDemote n k v b r)
  show ?case
  proof
    assume "colliding_leaf n k \<or> above_colliding_leaf n k"
    with FreshDemote(4) have cl: "colliding_leaf n k" by (auto simp: above_colliding_leaf_def)
    then obtain ko where ko: "key n = Some ko" "same_prefix ko k" "unat (number n) < 32"
      by (auto simp: colliding_leaf_def)
    define n2 where "n2 = set_val (set_key (set_slot n b (Some (newNode (level n + 1) k v))) None) None"
    from FreshDemote(2) have b: "b = slice_bytes k ! unat (number n)"
      by (auto simp: index_def split: if_splits)
    from ko have eqb: "ko ! unat (number n) = b"
      unfolding b same_prefix_def
      by (metis nth_take)
    from ko(2) obtain kb where kb: "k = Some kb"
      by (cases k) (auto simp: same_prefix_def slice_len_def)
    have leaf: "colliding_leaf (newNode (level n + 1) k v) (Some ko)"
      using ko(2) kb number_newNode [of "level n + 1" k v]
      by (auto simp: colliding_leaf_def same_prefix_def slice_len_def)
    have "slot n2 b = Some (newNode (level n + 1) k v)"
      by (simp add: n2_def slot_def set_slot_def)
    with leaf ko eqb have "above_colliding_leaf n2 (Some ko)"
      by (auto simp: above_colliding_leaf_def n2_def same_prefix_def slice_len_def)
    with FreshDemote(5) ko show False by (simp add: n2_def)
  qed
next
  case (Child n k v b c c')
  then show ?case
    by (auto simp: colliding_leaf_def above_colliding_leaf_def index_def split: if_splits)
next
  case (ChildDemote n k v b c c' r)
  then show ?case
    by (auto simp: colliding_leaf_def above_colliding_leaf_def slot_def split: if_splits)
qed

text \<open>C1, as the code has it: levels are bytes, so a node at level 255 has children at
  level 0 and the bits of the first 32 bytes are tested again. Two keys of 33 bytes that
  differ only in their last byte are distinct and long enough for the bit at which they
  differ, but inserting the second never returns: no trie is produced.\<close>

theorem long_shared_prefix_counterexample:
  "Add NewMerkleTrie wide_key_a (Some [1]) = Some (Inr wide_trie)
   \<and> Add wide_trie wide_key_b (Some [2]) = None
   \<and> wide_key_a \<noteq> wide_key_b \<and> slice_len wide_key_a = 33 \<and> slice_len wide_key_b = 33"
proof -
  have "colliding_leaf (root wide_trie) wide_key_b"
    using number_newNode [of 0 wide_key_a "Some [1]"]
    by (simp add: colliding_leaf_def same_prefix_def wide_trie_def wide_key_a_def wide_key_b_def
        slice_len_def)
  with add_collision_never_returns [of "root wide_trie" wide_key_b "Some [2]"]
  have "add (root wide_trie) wide_key_b (Some [2]) = None"
    by (cases "add (root wide_trie) wide_key_b (Some [2])") auto
  then have "Add wide_trie wide_key_b (Some [2]) = None"
    by (simp add: Add_def wide_trie_def)
  moreover have "Add NewMerkleTrie wide_key_a (Some [1]) = Some (Inr wide_trie)"
    by (simp add: Add_def NewMerkleTrie_def newNode_def wide_trie_def)
  ultimately show ?thesis
    by (simp add: wide_key_a_def wide_key_b_def slice_len_def)
qed

section \<open>Two keys that differ in their last bit\<close>

lemma mask_test: "(push_bit j 1 AND (x :: byte) = 0) = (\<not> bit x j)"
  by (simp add: push_bit_of_1 and.commute [of _ x] and_exp_eq_0_iff_not_bit)

lemma xor_one_high:
  assumes "x XOR y = (1 :: byte)" "0 < j"
  shows "(push_bit j 1 AND x = 0) = (push_bit j 1 AND y = 0)"
proof -
  have "bit (x XOR y) j = bit (1 :: byte) j" using assms(1) by simp
  with assms(2) have "bit x j = bit y j" by (simp add: bit_xor_iff bit_1_iff)
  then show ?thesis using mask_test [of j x] mask_test [of j y] by simp
qed

lemma xor_one_low:
  assumes "x XOR y = (1 :: byte)" "x AND 1 = 0"
  shows "y AND 1 \<noteq> 0"
proof -
  have "bit (x XOR y) 0 = bit (1 :: byte) 0" using assms(1) by simp
  then have "bit x 0 \<noteq> bit y 0" by (simp add: bit_xor_iff)
  moreover from assms(2) have "\<not> bit x 0" using mask_test [of 0 x] by (simp add: and.commute)
  ultimately have "bit y 0" by simp
  then show ?thesis using mask_test [of 0 y] by (simp add: and.commute)
qed

lemma differ_in_last_bitD:
  assumes "differ_in_last_bit ka kb"
  shows "ka \<noteq> []" "kb \<noteq> []" "length kb = length ka" "butlast ka = butlast kb"
    "last ka XOR last kb = 1" "last ka AND 1 = 0"
proof -
  from assms show a: "ka \<noteq> []" and b: "butlast ka = butlast kb"
    and "last ka XOR last kb = 1" and "last ka AND 1 = 0"
    unfolding differ_in_last_bit_def by blast+
  from assms show c: "length kb = length ka"
    unfolding differ_in_last_bit_def by simp
  from a c show "kb \<noteq> []" by (metis length_0_conv)
qed

lemma last_bit_index: "(8 * Suc m - 1) div 8 = m" "(8 * Suc m - 1) mod 8 = 7"
proof -
  have e: "8 * Suc m - 1 = 7 + m * 8" by simp
  show "(8 * Suc m - 1) div 8 = m" unfolding e by simp
  show "(8 * Suc m - 1) mod 8 = 7" unfolding e by simp
qed

lemma before_last_bit:
  assumes "i < 8 * Suc m - 1" "\<not> i div 8 < m"
  shows "i div 8 = m" "i mod 8 < 7"
proof -
  from assms(1) have "i < 8 * Suc m" by simp
  then have "i div 8 < Suc m" by (simp add: less_mult_imp_div_less mult.commute)
  with assms(2) show d: "i div 8 = m" by simp
  have "i = 8 * (i div 8) + i mod 8" by simp
  with d have "i = 8 * m + i mod 8" by simp
  with assms(1) show "i mod 8 < 7" by simp
qed

lemma last_bit_agree:
  assumes "differ_in_last_bit ka kb" "i < 8 * length ka - 1"
  shows "goes_left i (Some ka) = goes_left i (Some kb)"
proof -
  note D = differ_in_last_bitD [OF assms(1)]
  from D(1) obtain m where m: "length ka = Suc m" by (cases ka) auto
  show ?thesis
  proof (cases "i div 8 < m")
    case True
    with D(3) m have "ka ! (i div 8) = butlast ka ! (i div 8)"
      "kb ! (i div 8) = butlast kb ! (i div 8)"
      by (simp_all add: nth_butlast)
    with D(4) show ?thesis by (simp add: goes_left_def)
  next
    case False
    from before_last_bit [OF _ False] assms(2) m have d: "i div 8 = m" and "i mod 8 < 7"
      by simp_all
    then have j: "0 < 7 - i mod 8" by simp
    have "ka ! (i div 8) = last ka" "kb ! (i div 8) = last kb"
      using D(1,2,3) d m by (simp_all add: last_conv_nth)
    with xor_one_high [OF D(5) j] show ?thesis
      by (simp add: goes_left_def)
  qed
qed

lemma last_bit_differ:
  assumes "differ_in_last_bit ka kb"
  shows "goes_left (8 * length ka - 1) (Some ka)" "\<not> goes_left (8 * length ka - 1) (Some kb)"
proof -
  note D = differ_in_last_bitD [OF assms(1)]
  from D(1) obtain m where m: "length ka = Suc m" by (cases ka) auto
  have d: "(8 * length ka - 1) div 8 = m" "(8 * length ka - 1) mod 8 = 7"
    unfolding m by (rule last_bit_index)+
  have l: "ka ! ((8 * length ka - 1) div 8) = last ka"
    "kb ! ((8 * length ka - 1) div 8) = last kb"
    using D(1,2,3) d m by (simp_all add: last_conv_nth)
  from D(6) show "goes_left (8 * length ka - 1) (Some ka)"
    unfolding goes_left_def slice_bytes.simps d(2) l(1) by (simp add: and.commute)
  from xor_one_low [OF D(5) D(6)]
  show "\<not> goes_left (8 * length ka - 1) (Some kb)"
    unfolding goes_left_def slice_bytes.simps d(2) l(2) by (simp add: and.commute)
qed

lemma pair_tree:
  assumes D: "differ_in_last_bit ka kb" and len: "length ka \<le> 32"
    and "L \<le> 8 * length ka - 1" "L + c = 256"
  shows "\<exists>n. build c L [(Some ka, va), (Some kb, vb)] = Some n
           \<and> fst (hash H n) = Inr (H (H (slice_bytes va) @ H (slice_bytes vb)))
           \<and> fst (max_depth_r n) = of_nat (8 * length ka)
           \<and> leaf_depths L n = [8 * length ka, 8 * length ka]"
  using assms(3,4)
proof (induction d \<equiv> "8 * length ka - 1 - L" arbitrary: L c)
  case 0
  note DD = differ_in_last_bitD [OF D]
  from DD(1) obtain m where m: "length ka = Suc m" by (cases ka) auto
  from 0 have L: "L = 8 * length ka - 1" by simp
  with len 0(3) m obtain c' where c: "c = Suc c'" by (cases c) auto
  have SL: "Suc L = 8 * length ka" using L m by simp
  from last_bit_differ [OF D] L have g: "goes_left L (Some ka)" "\<not> goes_left L (Some kb)"
    by simp_all
  have "build c L [(Some ka, va), (Some kb, vb)] =
    Some (set_right (set_left (newNode (of_nat L) None None)
       (Some (newNode (of_nat (Suc L)) (Some ka) va))) (Some (newNode (of_nat (Suc L)) (Some kb) vb)))"
    using g by (simp add: c build_single)
  then show ?case
    by (simp add: newNode_def SL)
next
  case (Suc d)
  note DD = differ_in_last_bitD [OF D]
  from Suc(2) have L: "L < 8 * length ka - 1" by simp
  with len Suc(4) obtain c' where c: "c = Suc c'" by (cases c) auto
  from last_bit_agree [OF D L] have g: "goes_left L (Some ka) = goes_left L (Some kb)" .
  have "d = 8 * length ka - 1 - Suc L" using Suc(2) by simp
  from Suc(1) [OF this] L Suc(4) c
  obtain n' where n': "build c' (Suc L) [(Some ka, va), (Some kb, vb)] = Some n'"
    and h: "fst (hash H n') = Inr (H (H (slice_bytes va) @ H (slice_bytes vb)))"
    and md: "fst (max_depth_r n') = of_nat (8 * length ka)"
    and ld: "leaf_depths (Suc L) n' = [8 * length ka, 8 * length ka]"
    by auto
  show ?case
  proof (cases "goes_left L (Some ka)")
    case True
    with g n' have "build c L [(Some ka, va), (Some kb, vb)] =
      Some (set_right (set_left (newNode (of_nat L) None None) (Some n')) None)"
      by (simp add: c)
    with h md ld show ?thesis by (simp add: newNode_def case_prod_beta word_gt_0)
  next
    case False
    with g n' have "build c L [(Some ka, va), (Some kb, vb)] =
      Some (set_right (set_left (newNode (of_nat L) None None) None) (Some n'))"
      by (simp add: c)
    with h md ld show ?thesis by (simp add: newNode_def case_prod_beta word_gt_0)
  qed
qed

lemma last_bit_first_diff:
  assumes D: "differ_in_last_bit ka kb"
  shows "first_diff (Some ka) (Some kb) = Some (8 * length ka - 1)"
proof -
  note DD = differ_in_last_bitD [OF D]
  from DD(1) obtain m where m: "length ka = Suc m" by (cases ka) auto
  let ?P = "\<lambda>i. goes_left i (Some ka) \<noteq> goes_left i (Some kb)"
  let ?n = "8 * length ka"
  have lt: "8 * length ka - 1 < ?n" using m by simp
  have "find ?P [0 ..< ?n] = Some (8 * length ka - 1)"
    unfolding find_Some_iff
  proof (intro exI [of _ "8 * length ka - 1"] conjI allI impI)
    show "8 * length ka - 1 < length [0 ..< ?n]" using lt by simp
    show "?P ([0 ..< ?n] ! (8 * length ka - 1))" using lt last_bit_differ [OF D] by simp
    show "8 * length ka - 1 = [0 ..< ?n] ! (8 * length ka - 1)" using lt by simp
    fix j assume "j < 8 * length ka - 1"
    with last_bit_agree [OF D this] lt show "\<not> ?P ([0 ..< ?n] ! j)" by simp
  qed
  with DD(3) show ?thesis by (simp add: first_diff_def slice_len_def)
qed

lemma last_bit_pair:
  assumes D: "differ_in_last_bit ka kb" and len: "length ka \<le> 32"
  shows "\<exists>t. AddAll NewMerkleTrie [(Some ka, va), (Some kb, vb)] = Some (Inr t)
           \<and> AddAll NewMerkleTrie [(Some kb, vb), (Some ka, va)] = Some (Inr t)
           \<and> unat (fst (MaxDepth t)) = (8 * length ka) mod 256
           \<and> fst (Hash H t) = Inr (H (H (slice_bytes va) @ H (slice_bytes vb)))
           \<and> leaf_depths 0 (root t) = [8 * length ka, 8 * length ka]"
proof -
  note DD = differ_in_last_bitD [OF D]
  from DD(1) obtain m where m: "length ka = Suc m" by (cases ka) auto
  have "diverge 0 (Some ka) (Some kb)"
    by (rule diverge_at [of 0 "8 * length ka - 1"])
      (use last_bit_differ [OF D] len m DD(3) in \<open>simp_all add: slice_len_def\<close>)
  then have s: "separated [(Some ka, va), (Some kb, vb)]" by simp
  have ms: "mset [(Some kb, vb), (Some ka, va)] = mset [(Some ka, va), (Some kb, vb)]" by simp
  from separated_sep [OF s] have s1: "sep 0 [(Some ka, va), (Some kb, vb)]" .
  with sep_mset [OF ms, of 0] have s2: "sep 0 [(Some kb, vb), (Some ka, va)]" by simp
  from pair_tree [OF D len, of 0 256 va vb H] obtain n
    where n: "build 256 0 [(Some ka, va), (Some kb, vb)] = Some n"
      and h: "fst (hash H n) = Inr (H (H (slice_bytes va) @ H (slice_bytes vb)))"
      and md: "fst (max_depth_r n) = of_nat (8 * length ka)"
      and ld: "leaf_depths 0 n = [8 * length ka, 8 * length ka]"
    by auto
  from AddAll_from_empty [OF s1] n
  have r1: "AddAll NewMerkleTrie [(Some ka, va), (Some kb, vb)] = Some (Inr \<lparr>root = n, empty = False\<rparr>)"
    by auto
  from AddAll_from_empty [OF s2] n build_mset [OF ms, of 256 0]
  have r2: "AddAll NewMerkleTrie [(Some kb, vb), (Some ka, va)] = Some (Inr \<lparr>root = n, empty = False\<rparr>)"
    by auto
  have u: "unat (of_nat (8 * length ka) :: byte) = (8 * length ka) mod 256"
    unfolding unat_of_nat by simp
  have "fst (MaxDepth \<lparr>root = n, empty = False\<rparr>) = fst (max_depth_r n)"
    by (simp add: MaxDepth_def case_prod_beta)
  with md u have "unat (fst (MaxDepth \<lparr>root = n, empty = False\<rparr>)) = (8 * length ka) mod 256"
    by (simp only:)
  moreover have "fst (Hash H \<lparr>root = n, empty = False\<rparr>) = Inr (H (H (slice_bytes va) @ H (slice_bytes vb)))"
    using h by (simp add: Hash_def case_prod_beta)
  ultimately show ?thesis using r1 r2 ld by simp
qed

text \<open>C6 (amended): two keys of equal length, at most 32 bytes, that differ only in their
  last bit, the first having the 0 bit: inserted in either order into an empty trie they
  give a trie whose depth is the position of that bit plus one, modulo 256, and whose
  digest is the hash of the first value's digest followed by the second's.\<close>

theorem last_bit_keys:
  assumes "differ_in_last_bit ka kb" and "length ka \<le> 32"
  shows "\<exists>t. AddAll NewMerkleTrie [(Some ka, va), (Some kb, vb)] = Some (Inr t)
           \<and> AddAll NewMerkleTrie [(Some kb, vb), (Some ka, va)] = Some (Inr t)
           \<and> first_diff (Some ka) (Some kb) = Some (8 * length ka - 1)
           \<and> unat (fst (MaxDepth t)) = (8 * length ka - 1 + 1) mod 256
           \<and> fst (Hash H t) = Inr (H (H (slice_bytes va) @ H (slice_bytes vb)))"
proof -
  from differ_in_last_bitD(1) [OF assms(1)] have "8 * length ka - 1 + 1 = 8 * length ka"
    by (cases ka) auto
  with last_bit_pair [OF assms, of va vb H] last_bit_first_diff [OF assms(1)]
  show ?thesis by auto
qed

theorem last_bit_keys_witness:
  "differ_in_last_bit short_key_a short_key_b \<and> length short_key_a \<le> 32
   \<and> (\<exists>t. AddAll NewMerkleTrie [(Some short_key_a, Some [7]), (Some short_key_b, Some [8])] = Some (Inr t)
           \<and> AddAll NewMerkleTrie [(Some short_key_b, Some [8]), (Some short_key_a, Some [7])] = Some (Inr t)
           \<and> first_diff (Some short_key_a) (Some short_key_b) = Some (8 * length short_key_a - 1)
           \<and> unat (fst (MaxDepth t)) = (8 * length short_key_a - 1 + 1) mod 256
           \<and> fst (Hash toy_hash t) = Inr (toy_hash (toy_hash (slice_bytes (Some [7])) @ toy_hash (slice_bytes (Some [8])))))"
proof -
  have h1: "differ_in_last_bit short_key_a short_key_b"
    by (simp add: differ_in_last_bit_def short_key_a_def short_key_b_def)
  have h2: "length short_key_a \<le> 32" by (simp add: short_key_a_def)
  show ?thesis
    by (rule conjI [OF h1 conjI [OF h2 last_bit_keys [OF h1 h2]]])
qed

text \<open>C6, as the code has it: \<open>MaxDepth\<close> returns a byte. For two keys of 32 bytes that differ
  only in their last bit, the first differing bit is bit 255 and the depth returned is 0,
  not 256.\<close>

theorem depth_wraps_counterexample:
  "differ_in_last_bit key32_a key32_b
   \<and> AddAll NewMerkleTrie wrap_pairs = Some (Inr wrap_trie)
   \<and> first_diff (Some key32_a) (Some key32_b) = Some 255
   \<and> fst (MaxDepth wrap_trie) = 0"
proof -
  have D: "differ_in_last_bit key32_a key32_b"
    by (simp add: differ_in_last_bit_def key32_a_def key32_b_def)
  have len: "length key32_a \<le> 32" "8 * length key32_a = 256" by (simp_all add: key32_a_def)
  from last_bit_pair [OF D len(1), of "Some [1]" "Some [2]" toy_hash] len(2)
  obtain t where t: "AddAll NewMerkleTrie wrap_pairs = Some (Inr t)"
    and md: "unat (fst (MaxDepth t)) = 0"
    by (auto simp: wrap_pairs_def)
  from t have w: "wrap_trie = t" by (simp add: wrap_trie_def)
  from md have "fst (MaxDepth t) = 0" by (simp add: unat_eq_0)
  moreover from last_bit_first_diff [OF D] len(2)
  have "first_diff (Some key32_a) (Some key32_b) = Some 255" by simp
  ultimately show ?thesis using D t w by simp
qed

section \<open>Levels\<close>

lemma stored_levels_sel:
  "stored_levels d n =
    (unat (level n) = d mod 256 \<and> number n = level n div 8
     \<and> nbit n = push_bit (7 - unat (level n mod 8)) 1
     \<and> (case left n of None \<Rightarrow> True | Some c \<Rightarrow> stored_levels (Suc d) c)
     \<and> (case right n of None \<Rightarrow> True | Some c \<Rightarrow> stored_levels (Suc d) c))"
  by (cases n) simp

lemma level_step: "unat lv = d mod 256 \<Longrightarrow> unat (lv + 1 :: byte) = Suc d mod 256"
  by (simp add: unat_word_ariths mod_Suc_eq)

lemma stored_levels_newNode:
  "unat lv = d mod 256 \<Longrightarrow> stored_levels d (newNode lv k v)"
  by (simp add: newNode_def)

lemma stored_levels_set_val [simp]: "stored_levels d (set_val n x) = stored_levels d n"
  by (cases n) simp

lemma stored_levels_set_key [simp]: "stored_levels d (set_key n x) = stored_levels d n"
  by (cases n) simp

lemma stored_levels_set_slot:
  "stored_levels d n \<Longrightarrow> stored_levels (Suc d) c \<Longrightarrow> stored_levels d (set_slot n b (Some c))"
  by (cases n) (simp add: set_slot_def)

lemma stored_levels_slot:
  "stored_levels d n \<Longrightarrow> slot n b = Some c \<Longrightarrow> stored_levels (Suc d) c"
  by (cases n) (auto simp: slot_def split: if_splits)

lemma add_keeps_levels:
  assumes "add n k v = Some r"
  shows "\<forall>d. stored_levels d n \<longrightarrow> (\<forall>n'. r = Inr n' \<longrightarrow> stored_levels d n')"
  using assms
proof (induction rule: add_induct)
  case (Equal n k v)
  then show ?case by simp
next
  case (Panic n k v e)
  then show ?case by simp
next
  case (ChildPanic n k v b c e c')
  then show ?case by simp
next
  case (Fresh n k v b)
  show ?case
  proof (intro allI impI)
    fix d n' assume s: "stored_levels d n"
      and r: "Inr (set_slot n b (Some (newNode (level n + 1) k v))) = Inr n'"
    from s have "unat (level n) = d mod 256" by (simp add: stored_levels_sel [of d n])
    then have "stored_levels (Suc d) (newNode (level n + 1) k v)"
      by (intro stored_levels_newNode level_step)
    with s r show "stored_levels d n'" by (auto intro: stored_levels_set_slot)
  qed
next
  case (FreshDemote n k v b r)
  show ?case
  proof (intro allI impI)
    fix d n' assume s: "stored_levels d n" and r: "r = Inr n'"
    from s have "unat (level n) = d mod 256" by (simp add: stored_levels_sel [of d n])
    then have "stored_levels (Suc d) (newNode (level n + 1) k v)"
      by (intro stored_levels_newNode level_step)
    with s have "stored_levels d
      (set_val (set_key (set_slot n b (Some (newNode (level n + 1) k v))) None) None)"
      by (simp add: stored_levels_set_slot)
    with FreshDemote.IH r show "stored_levels d n'" by blast
  qed
next
  case (Child n k v b c c')
  show ?case
  proof (intro allI impI)
    fix d n' assume s: "stored_levels d n" and r: "Inr (set_slot n b (Some c')) = Inr n'"
    from stored_levels_slot [OF s Child.hyps(3)] Child.IH have "stored_levels (Suc d) c'" by blast
    with s r show "stored_levels d n'" by (auto intro: stored_levels_set_slot)
  qed
next
  case (ChildDemote n k v b c c' r)
  show ?case
  proof (intro allI impI)
    fix d n' assume s: "stored_levels d n" and r: "r = Inr n'"
    from stored_levels_slot [OF s ChildDemote.hyps(3)] ChildDemote.IH(1)
    have "stored_levels (Suc d) c'" by blast
    with s have "stored_levels d (set_val (set_key (set_slot n b (Some c')) None) None)"
      by (simp add: stored_levels_set_slot)
    with ChildDemote.IH(2) r show "stored_levels d n'" by blast
  qed
qed

lemma AddAll_keeps_levels:
  assumes "AddAll t kvs = Some (Inr t')" "stored_levels 0 (root t)"
  shows "stored_levels 0 (root t')"
  using assms
proof (induction kvs arbitrary: t)
  case Nil
  then show ?case by simp
next
  case (Cons kv kvs)
  obtain k v where kv: "kv = (k, v)" by (cases kv)
  from Cons.prems(1) kv obtain t1 where t1: "Add t k v = Some (Inr t1)"
    and rest: "AddAll t1 kvs = Some (Inr t')"
    by (auto split: option.splits sum.splits)
  have "stored_levels 0 (root t1)"
  proof (cases "empty t")
    case True
    with t1 Cons.prems(2) show ?thesis by (auto simp: Add_def)
  next
    case False
    with t1 obtain r where r: "add (root t) k v = Some r"
      and w: "(case r of Inl (e, n) \<Rightarrow> Inl (e, t\<lparr>root := n\<rparr>) | Inr n \<Rightarrow> Inr (t\<lparr>root := n\<rparr>))
              = Inr t1"
      by (auto simp: Add_def bind_eq_Some_conv)
    from w obtain n1 where "r = Inr n1" and "t1 = t\<lparr>root := n1\<rparr>"
      by (cases r) (auto split: prod.splits)
    with r add_keeps_levels [of "root t" k v "Inr n1"] Cons.prems(2)
    show ?thesis by simp
  qed
  from Cons.IH [OF rest this] show ?case .
qed

lemma Max_0_append:
  "Max (set (0 # xs @ ys)) = max (Max (set (0 # xs))) (Max (set ((0::nat) # ys)))"
proof -
  have e: "set (0 # xs @ ys) = set (0 # xs) \<union> set (0 # ys)" by auto
  have "Max (set (0 # xs) \<union> set (0 # ys)) = max (Max (set (0 # xs))) (Max (set (0 # ys)))"
    by (rule Max_Un) simp_all
  with e show ?thesis by (simp only:)
qed

lemma max_depth_leaf_depths:
  "stored_levels d n \<Longrightarrow>
   unat (fst (max_depth_r n)) = Max (set (0 # map (\<lambda>x. x mod 256) (leaf_depths d n)))"
proof (induction n arbitrary: d)
  case (Node lv b nm l r k v)
  show ?case
  proof (cases "k \<noteq> None")
    case True
    with Node.prems show ?thesis by simp
  next
    case False
    define dl where "dl = (case l of None \<Rightarrow> 0 | Some c \<Rightarrow> fst (max_depth_r c))"
    define dr where "dr = (case r of None \<Rightarrow> 0 | Some c \<Rightarrow> fst (max_depth_r c))"
    define xl where "xl = (case l of None \<Rightarrow> [] | Some c \<Rightarrow> leaf_depths (Suc d) c)"
    define xr where "xr = (case r of None \<Rightarrow> [] | Some c \<Rightarrow> leaf_depths (Suc d) c)"
    have L: "unat dl = Max (set (0 # map (\<lambda>x. x mod 256) xl))"
    proof (cases l)
      case None
      then show ?thesis by (simp add: dl_def xl_def)
    next
      case (Some c)
      with Node.prems have "stored_levels (Suc d) c" by simp
      from Node.IH(1) [of c, OF _ this] Some show ?thesis by (simp add: dl_def xl_def)
    qed
    have R: "unat dr = Max (set (0 # map (\<lambda>x. x mod 256) xr))"
    proof (cases r)
      case None
      then show ?thesis by (simp add: dr_def xr_def)
    next
      case (Some c)
      with Node.prems have "stored_levels (Suc d) c" by simp
      from Node.IH(2) [of c, OF _ this] Some show ?thesis by (simp add: dr_def xr_def)
    qed
    have "fst (max_depth_r (Node lv b nm l r k v)) = (if dl > dr then dl else dr)"
      using False by (cases l; cases r) (simp_all add: dl_def dr_def case_prod_beta)
    then have "unat (fst (max_depth_r (Node lv b nm l r k v))) = max (unat dl) (unat dr)"
      by (auto simp: word_less_nat_alt max_def)
    moreover have "leaf_depths d (Node lv b nm l r k v) = xl @ xr"
      using False by (simp add: xl_def xr_def)
    ultimately show ?thesis
      using L R Max_0_append [of "map (\<lambda>x. x mod 256) xl" "map (\<lambda>x. x mod 256) xr"]
      by simp
  qed
qed

lemma Add_not_empty: "Add t k v = Some (Inr t1) \<Longrightarrow> \<not> empty t1"
proof (cases "empty t")
  case True
  assume "Add t k v = Some (Inr t1)"
  with True show ?thesis by (auto simp: Add_def)
next
  case False
  assume "Add t k v = Some (Inr t1)"
  with False obtain r where r: "add (root t) k v = Some r"
    and w: "(case r of Inl (e, n) \<Rightarrow> Inl (e, t\<lparr>root := n\<rparr>) | Inr n \<Rightarrow> Inr (t\<lparr>root := n\<rparr>))
            = Inr t1"
    by (auto simp: Add_def bind_eq_Some_conv)
  from w obtain n1 where "r = Inr n1" and "t1 = t\<lparr>root := n1\<rparr>"
    by (cases r) (auto split: prod.splits)
  with False show ?thesis by simp
qed

lemma AddAll_not_empty:
  "AddAll t kvs = Some (Inr t') \<Longrightarrow> \<not> empty t \<Longrightarrow> \<not> empty t'"
proof (induction kvs arbitrary: t)
  case Nil
  then show ?case by simp
next
  case (Cons kv kvs)
  obtain k v where kv: "kv = (k, v)" by (cases kv)
  from Cons.prems(1) kv obtain t1 where t1: "Add t k v = Some (Inr t1)"
    and rest: "AddAll t1 kvs = Some (Inr t')"
    by (auto split: option.splits sum.splits)
  from Cons.IH [OF rest Add_not_empty [OF t1]] show ?case .
qed

lemma AddAll_empty_result:
  assumes "AddAll t kvs = Some (Inr t')" "empty t'"
  shows "t' = t"
proof (cases kvs)
  case Nil
  with assms show ?thesis by simp
next
  case (Cons kv rest)
  obtain k v where kv: "kv = (k, v)" by (cases kv)
  from assms(1) Cons kv obtain t1 where t1: "Add t k v = Some (Inr t1)"
    and rest: "AddAll t1 rest = Some (Inr t')"
    by (auto split: option.splits sum.splits)
  from AddAll_not_empty [OF rest Add_not_empty [OF t1]] assms(2) show ?thesis by simp
qed

lemma wide_pairs_never_return: "AddAll NewMerkleTrie wide_pairs = None"
proof -
  have "colliding_leaf (root wide_trie) wide_key_b"
    using number_newNode [of 0 wide_key_a "Some [1]"]
    by (simp add: colliding_leaf_def same_prefix_def wide_trie_def wide_key_a_def wide_key_b_def
        slice_len_def)
  with add_collision_never_returns [of "root wide_trie" wide_key_b "Some [2]"]
  have "add (root wide_trie) wide_key_b (Some [2]) = None"
    by (cases "add (root wide_trie) wide_key_b (Some [2])") auto
  then have "Add wide_trie wide_key_b (Some [2]) = None"
    by (simp add: Add_def wide_trie_def)
  moreover have "Add NewMerkleTrie wide_key_a (Some [1]) = Some (Inr wide_trie)"
    by (simp add: Add_def NewMerkleTrie_def newNode_def wide_trie_def)
  ultimately show ?thesis by (simp add: wide_pairs_def)
qed

lemma wrap3_tree:
  "\<exists>t. AddAll NewMerkleTrie wrap3_pairs = Some (Inr t)
     \<and> leaf_depths 0 (root t) = [256, 256, 1]
     \<and> fst (MaxDepth t) = 1"
proof -
  have D: "differ_in_last_bit key32_a key32_b"
    by (simp add: differ_in_last_bit_def key32_a_def key32_b_def)
  have len: "length key32_a \<le> 32" "8 * length key32_a = 256" "length key32_b = 32"
    by (simp_all add: key32_a_def key32_b_def)
  have g0: "goes_left 0 (Some key32_a)" "goes_left 0 (Some key32_b)" "\<not> goes_left 0 (Some [128])"
    by (simp_all add: goes_left_def key32_a_def key32_b_def nth_append)
  have ab: "diverge 0 (Some key32_a) (Some key32_b)"
    by (rule diverge_at [of 0 255]) (use last_bit_differ [OF D] len in \<open>simp_all add: slice_len_def\<close>)
  have ac: "diverge 0 (Some key32_a) (Some [128])"
    by (rule diverge_at [of 0 0]) (use g0 len in \<open>simp_all add: slice_len_def\<close>)
  have bc: "diverge 0 (Some key32_b) (Some [128])"
    by (rule diverge_at [of 0 0]) (use g0 len in \<open>simp_all add: slice_len_def\<close>)
  from ab ac bc have "separated wrap3_pairs" by (simp add: wrap3_pairs_def)
  from AddAll_from_empty [OF separated_sep [OF this]]
  obtain n where n: "build 256 0 wrap3_pairs = Some n"
    and r: "AddAll NewMerkleTrie wrap3_pairs = Some (Inr \<lparr>root = n, empty = False\<rparr>)"
    by (auto simp: wrap3_pairs_def)
  from pair_tree [OF D len(1), of 1 255 "Some [1]" "Some [2]" toy_hash] len(2)
  obtain n1 where n1: "build 255 1 [(Some key32_a, Some [1]), (Some key32_b, Some [2])] = Some n1"
    and ld1: "leaf_depths 1 n1 = [256, 256]"
    by auto
  have "build (Suc 255) 0 wrap3_pairs =
    Some (set_right (set_left (newNode 0 None None) (Some n1))
            (Some (newNode 1 (Some [128]) (Some [3]))))"
    unfolding wrap3_pairs_def build.simps using g0 n1 by (simp add: build_single)
  with n have nn: "n = set_right (set_left (newNode 0 None None) (Some n1))
            (Some (newNode 1 (Some [128]) (Some [3])))" by simp
  have ld: "leaf_depths 0 n = [256, 256, 1]"
    unfolding nn using ld1 by (simp add: newNode_def)
  have "stored_levels 0 (root NewMerkleTrie)" by (simp add: NewMerkleTrie_def newNode_def)
  from AddAll_keeps_levels [OF r this] have "stored_levels 0 n" by simp
  from max_depth_leaf_depths [OF this] ld have "unat (fst (max_depth_r n)) = 1" by simp
  then have "fst (max_depth_r n) = 1" by (metis unat_1 word_unat_eq_iff)
  then have "fst (MaxDepth \<lparr>root = n, empty = False\<rparr>) = 1"
    by (simp add: MaxDepth_def case_prod_beta)
  with r ld show ?thesis by simp
qed

text \<open>C10, as the code has it: \<open>MaxDepth\<close> takes the maximum of the stored levels, which
  have wrapped, so what it returns need not be the depth of the tree modulo 256. Two keys
  of 32 bytes that differ in their last bit and the key \<open>[128]\<close> give leaves at depths 256,
  256 and 1: the depth is 256, which is 0 modulo 256, and \<open>MaxDepth\<close> returns 1. A depth of
  257 or more is never reached: two keys of 33 bytes that differ only in their last byte
  would need it, and inserting them never returns.\<close>

theorem max_of_wrapped_levels_counterexample:
  "AddAll NewMerkleTrie wrap3_pairs = Some (Inr wrap3_trie)
   \<and> leaf_depths 0 (root wrap3_trie) = [256, 256, 1]
   \<and> Max (set (leaf_depths 0 (root wrap3_trie))) mod 256 = 0
   \<and> fst (MaxDepth wrap3_trie) = 1
   \<and> AddAll NewMerkleTrie wide_pairs = None"
proof -
  from wrap3_tree obtain t where t: "AddAll NewMerkleTrie wrap3_pairs = Some (Inr t)"
    and ld: "leaf_depths 0 (root t) = [256, 256, 1]" and md: "fst (MaxDepth t) = 1" by blast
  from t have w: "wrap3_trie = t" by (simp add: wrap3_trie_def)
  from t ld md w wide_pairs_never_return show ?thesis by simp
qed

text \<open>C10 (amended): in every trie that insertions into an empty trie return, every node
  stores its depth modulo 256 as its level, with the byte index and the bit mask derived
  from that byte, so the level of a child is the level of its parent plus one modulo 256;
  and \<open>MaxDepth\<close> returns the largest stored level of a leaf.\<close>

theorem levels_wrap_around:
  assumes "AddAll NewMerkleTrie kvs = Some (Inr t)"
  shows "stored_levels 0 (root t)
       \<and> unat (fst (MaxDepth t)) = Max (set (0 # map (\<lambda>x. x mod 256) (leaf_depths 0 (root t))))"
proof -
  have "stored_levels 0 (root NewMerkleTrie)" by (simp add: NewMerkleTrie_def newNode_def)
  from AddAll_keeps_levels [OF assms this] have s: "stored_levels 0 (root t)" .
  show ?thesis
  proof (cases "empty t")
    case True
    from AddAll_empty_result [OF assms True] have "t = NewMerkleTrie" .
    then show ?thesis using s
      by (simp add: MaxDepth_def NewMerkleTrie_def newNode_def)
  next
    case False
    with s max_depth_leaf_depths [OF s] show ?thesis
      by (simp add: MaxDepth_def case_prod_beta)
  qed
qed

theorem levels_wrap_around_witness:
  "AddAll NewMerkleTrie wrap_pairs = Some (Inr wrap_trie)
   \<and> stored_levels 0 (root wrap_trie)
   \<and> unat (fst (MaxDepth wrap_trie))
       = Max (set (0 # map (\<lambda>x. x mod 256) (leaf_depths 0 (root wrap_trie))))
   \<and> leaf_depths 0 (root wrap_trie) = [256, 256]
   \<and> fst (MaxDepth wrap_trie) = 0"
proof -
  have D: "differ_in_last_bit key32_a key32_b"
    by (simp add: differ_in_last_bit_def key32_a_def key32_b_def)
  have len: "length key32_a \<le> 32" "8 * length key32_a = 256" by (simp_all add: key32_a_def)
  from last_bit_pair [OF D len(1), of "Some [1]" "Some [2]" toy_hash] len(2)
  obtain t where t: "AddAll NewMerkleTrie wrap_pairs = Some (Inr t)"
    and ld: "leaf_depths 0 (root t) = [256, 256]"
    by (auto simp: wrap_pairs_def)
  from t have w: "wrap_trie = t" by (simp add: wrap_trie_def)
  with t have run: "AddAll NewMerkleTrie wrap_pairs = Some (Inr wrap_trie)" by simp
  from levels_wrap_around [OF run] ld w
  have "fst (MaxDepth wrap_trie) = 0" by (simp add: unat_eq_0)
  with levels_wrap_around [OF run] run ld w show ?thesis by simp
qed

section \<open>Inserting a key that is present\<close>

lemma shape_set_leaf_value: "shape (set_leaf_value k v n) = shape n"
  by (induction n) (auto split: option.splits)

lemma entries_set_leaf_value:
  "entries (set_leaf_value k v n) =
   map (\<lambda>kv. if bytes_Equal (fst kv) k then (fst kv, v) else kv) (entries n)"
  by (induction n) (auto split: option.splits)

lemma set_leaf_value_absent:
  "\<forall>kv \<in> set (entries n). \<not> bytes_Equal (fst kv) k \<Longrightarrow> set_leaf_value k v n = n"
  by (induction n) (auto split: option.splits)

lemma index_bytes_Equal: "bytes_Equal ke k \<Longrightarrow> index ke i = index k i"
  by (simp add: index_def bytes_Equal_def slice_len_def)

lemma add_present:
  assumes "routed n" "ke \<in> fst ` set (entries n)" "bytes_Equal ke k"
  shows "add n k v = Some (Inr (set_leaf_value k v n))"
  using assms
proof (induction n)
  case (Node lv b nm l r ko vo)
  let ?n = "Node lv b nm l r ko vo"
  show ?case
  proof (cases "ko \<noteq> None")
    case True
    with Node.prems show ?thesis by (subst add.simps) auto
  next
    case False
    then have ko: "ko = None" by simp
    from Node.prems(2) ko consider
      (L) c where "l = Some c" "ke \<in> fst ` set (entries c)"
      | (R) c where "r = Some c" "ke \<in> fst ` set (entries c)"
      by (auto split: option.splits)
    then show ?thesis
    proof cases
      case L
      from Node.prems(1) L have rc: "routed c"
        and gl: "\<forall>kv \<in> set (entries c). goes_to_left b nm (fst kv)"
        by (simp_all add: list_all_iff)
      from gl L(2) have "goes_to_left b nm ke" by auto
      then obtain x where x: "index ke nm = Inr x" "b AND x = 0"
        by (auto simp: goes_to_left_def split: sum.splits)
      with index_bytes_Equal [OF Node.prems(3)] have ik: "index k nm = Inr x" by simp
      have other: "set_leaf_value k v c' = c'" if "r = Some c'" for c'
      proof (rule set_leaf_value_absent, rule ballI, rule notI)
        fix kv assume kv: "kv \<in> set (entries c')" and e: "bytes_Equal (fst kv) k"
        from Node.prems(1) that kv have "goes_to_right b nm (fst kv)"
          by (simp add: list_all_iff)
        with index_bytes_Equal [OF e] ik x(2) show False
          by (simp add: goes_to_right_def)
      qed
      from Node.IH(1) [of c, OF _ rc L(2) Node.prems(3)] L(1)
      have "add c k v = Some (Inr (set_leaf_value k v c))" by simp
      with ko ik x(2) L(1) other show ?thesis
        by (subst add_internal [of _ _ x])
          (auto simp: slot_def set_slot_def split: option.splits)
    next
      case R
      from Node.prems(1) R have rc: "routed c"
        and gr: "\<forall>kv \<in> set (entries c). goes_to_right b nm (fst kv)"
        by (simp_all add: list_all_iff)
      from gr R(2) have "goes_to_right b nm ke" by auto
      then obtain x where x: "index ke nm = Inr x" "b AND x \<noteq> 0"
        by (auto simp: goes_to_right_def split: sum.splits)
      with index_bytes_Equal [OF Node.prems(3)] have ik: "index k nm = Inr x" by simp
      have other: "set_leaf_value k v c' = c'" if "l = Some c'" for c'
      proof (rule set_leaf_value_absent, rule ballI, rule notI)
        fix kv assume kv: "kv \<in> set (entries c')" and e: "bytes_Equal (fst kv) k"
        from Node.prems(1) that kv have "goes_to_left b nm (fst kv)"
          by (simp add: list_all_iff)
        with index_bytes_Equal [OF e] ik x(2) show False
          by (simp add: goes_to_left_def)
      qed
      from Node.IH(2) [of c, OF _ rc R(2) Node.prems(3)] R(1)
      have "add c k v = Some (Inr (set_leaf_value k v c))" by simp
      with ko ik x(2) R(1) other show ?thesis
        by (subst add_internal [of _ _ x])
          (auto simp: slot_def set_slot_def split: option.splits)
    qed
  qed
qed

lemma routed_set_val [simp]: "routed (set_val n x) = routed n"
  by (cases n) simp

lemma entries_set_val_keys [simp]: "fst ` set (entries (set_val n x)) = fst ` set (entries n)"
  by (cases n) simp

lemma entries_newNode_keys: "fst ` set (entries (newNode lv k v)) \<subseteq> {k}"
  by (simp add: newNode_def)

lemma routed_newNode [simp]: "routed (newNode lv k v)"
  by (simp add: newNode_def)

lemma goes_to_indexed:
  "index k nm = Inr x \<Longrightarrow> goes_to_left b nm k = (b AND x = 0)"
  "index k nm = Inr x \<Longrightarrow> goes_to_right b nm k = (b AND x \<noteq> 0)"
  by (simp_all add: goes_to_left_def goes_to_right_def)

lemma routed_put:
  assumes "routed n" "key n = None" "index k (number n) = Inr x" "routed c"
    and "fst ` set (entries c) \<subseteq> insert k (case slot n x of None \<Rightarrow> {} | Some c0 \<Rightarrow> fst ` set (entries c0))"
  shows "routed (set_slot n x (Some c))"
    and "fst ` set (entries (set_slot n x (Some c))) \<subseteq> insert k (fst ` set (entries n))"
proof -
  obtain lv b nm l r ko vo where n: "n = Node lv b nm l r ko vo" by (cases n)
  from assms(3) n have ik: "index k nm = Inr x" by simp
  show "routed (set_slot n x (Some c))"
  proof (cases "b AND x = 0")
    case True
    have "goes_to_left b nm (fst kv)" if "kv \<in> set (entries c)" for kv
    proof (cases "fst kv = k")
      case True
      with ik \<open>b AND x = 0\<close> show ?thesis by (simp add: goes_to_indexed)
    next
      case False
      with that assms(5) True n obtain c0 where "l = Some c0" "fst kv \<in> fst ` set (entries c0)"
        by (auto simp: slot_def split: option.splits)
      with assms(1) n show ?thesis by (auto simp: list_all_iff)
    qed
    with assms(1,2,4) n True show ?thesis
      by (auto simp: set_slot_def list_all_iff)
  next
    case False
    have "goes_to_right b nm (fst kv)" if "kv \<in> set (entries c)" for kv
    proof (cases "fst kv = k")
      case True
      with ik \<open>b AND x \<noteq> 0\<close> show ?thesis by (simp add: goes_to_indexed)
    next
      case nk: False
      with that assms(5) False n obtain c0 where "r = Some c0" "fst kv \<in> fst ` set (entries c0)"
        by (auto simp: slot_def split: option.splits)
      with assms(1) n show ?thesis by (auto simp: list_all_iff)
    qed
    with assms(1,2,4) n False show ?thesis
      by (auto simp: set_slot_def list_all_iff)
  qed
  show "fst ` set (entries (set_slot n x (Some c))) \<subseteq> insert k (fst ` set (entries n))"
    using assms(2,5) n
    by (cases "b AND x = 0") (auto simp: set_slot_def slot_def split: option.splits)
qed

lemma add_keeps_routed:
  assumes "add n k v = Some r"
  shows "routed n \<longrightarrow>
    (\<forall>n'. r = Inr n' \<longrightarrow> routed n' \<and> fst ` set (entries n') \<subseteq> insert k (fst ` set (entries n)))"
  using assms
proof (induction rule: add_induct)
  case (Equal n k v)
  then show ?case by auto
next
  case (Panic n k v e)
  then show ?case by simp
next
  case (ChildPanic n k v b c e c')
  then show ?case by simp
next
  case (Fresh n k v b)
  show ?case
  proof (intro impI allI)
    fix n' assume rn: "routed n" and r: "Inr (set_slot n b (Some (newNode (level n + 1) k v))) = Inr n'"
    from routed_put [OF rn Fresh.hyps(4) Fresh.hyps(2), of "newNode (level n + 1) k v"]
      entries_newNode_keys [of "level n + 1" k v] Fresh.hyps(3) r
    show "routed n' \<and> fst ` set (entries n') \<subseteq> insert k (fst ` set (entries n))"
      by auto
  qed
next
  case (FreshDemote n k v b r)
  show ?case
  proof (intro impI allI)
    fix n' assume rn: "routed n" and r: "r = Inr n'"
    obtain lv bb nm l rr ko vo where n: "n = Node lv bb nm l rr ko vo" by (cases n)
    define n0 where "n0 = set_val (set_key n None) None"
    define n2 where "n2 = set_val (set_key (set_slot n b (Some (newNode (level n + 1) k v))) None) None"
    have n2: "n2 = set_slot n0 b (Some (newNode (level n + 1) k v))"
      by (simp add: n n2_def n0_def set_slot_def)
    from rn FreshDemote.hyps(4) have leaf: "l = None" "rr = None"
      by (auto simp: n)
    then have r0: "routed n0" "key n0 = None" "entries n0 = []" "slot n0 b = None"
      "number n0 = number n"
      by (simp_all add: n n0_def slot_def)
    from routed_put [OF r0(1) r0(2), of k b "newNode (level n + 1) k v"]
      entries_newNode_keys [of "level n + 1" k v] FreshDemote.hyps(2) r0
    have rn2: "routed n2" and kn2: "fst ` set (entries n2) \<subseteq> {k}"
      unfolding n2 by auto
    from FreshDemote.IH have "routed n2 \<longrightarrow> (\<forall>n'. r = Inr n' \<longrightarrow>
        routed n' \<and> fst ` set (entries n') \<subseteq> insert (key n) (fst ` set (entries n2)))"
      unfolding n2_def .
    with rn2 r have A: "routed n'"
      and B: "fst ` set (entries n') \<subseteq> insert (key n) (fst ` set (entries n2))"
      by blast+
    from B kn2 have "fst ` set (entries n') \<subseteq> insert (key n) {k}" by blast
    note A this
    moreover from FreshDemote.hyps(4) have "fst ` set (entries n) = {key n}"
      by (simp add: n)
    ultimately show "routed n' \<and> fst ` set (entries n') \<subseteq> insert k (fst ` set (entries n))"
      by auto
  qed
next
  case (Child n k v b c c')
  show ?case
  proof (intro impI allI)
    fix n' assume rn: "routed n" and r: "Inr (set_slot n b (Some c')) = Inr n'"
    from rn Child.hyps(3) have "routed c"
      by (cases n) (auto simp: slot_def split: if_splits)
    with Child.IH have c': "routed c'" "fst ` set (entries c') \<subseteq> insert k (fst ` set (entries c))"
      by auto
    from routed_put [OF rn Child.hyps(4) Child.hyps(2) c'(1)] c'(2) Child.hyps(3) r
    show "routed n' \<and> fst ` set (entries n') \<subseteq> insert k (fst ` set (entries n))"
      by auto
  qed
next
  case (ChildDemote n k v b c c' r)
  show ?case
  proof (intro impI allI)
    fix n' assume rn: "routed n"
    with ChildDemote.hyps(3,4) have False
      by (cases n) (auto simp: slot_def split: if_splits)
    then show "routed n' \<and> fst ` set (entries n') \<subseteq> insert k (fst ` set (entries n))" ..
  qed
qed

lemma AddAll_keeps_routed:
  assumes "AddAll t kvs = Some (Inr t')" "routed (root t)"
    and "empty t \<longrightarrow> left (root t) = None \<and> right (root t) = None"
  shows "routed (root t')"
  using assms
proof (induction kvs arbitrary: t)
  case Nil
  then show ?case by simp
next
  case (Cons kv kvs)
  obtain k v where kv: "kv = (k, v)" by (cases kv)
  from Cons.prems(1) kv obtain t1 where t1: "Add t k v = Some (Inr t1)"
    and rest: "AddAll t1 kvs = Some (Inr t')"
    by (auto split: option.splits sum.splits)
  have "routed (root t1)"
  proof (cases "empty t")
    case True
    with t1 Cons.prems(3) show ?thesis
      by (cases "root t") (auto simp: Add_def)
  next
    case False
    with t1 obtain r where r: "add (root t) k v = Some r"
      and w: "(case r of Inl (e, n) \<Rightarrow> Inl (e, t\<lparr>root := n\<rparr>) | Inr n \<Rightarrow> Inr (t\<lparr>root := n\<rparr>))
              = Inr t1"
      by (auto simp: Add_def bind_eq_Some_conv)
    from w obtain n1 where "r = Inr n1" and "t1 = t\<lparr>root := n1\<rparr>"
      by (cases r) (auto split: prod.splits)
    with r add_keeps_routed [of "root t" k v "Inr n1"] Cons.prems(2)
    show ?thesis by simp
  qed
  from Cons.IH [OF rest this] Add_not_empty [OF t1] show ?case by simp
qed

lemma routed_one_leaf:
  "routed n \<Longrightarrow> length (filter (\<lambda>kv. bytes_Equal (fst kv) k) (entries n)) \<le> 1"
proof (induction n)
  case (Node lv b nm l r ko vo)
  let ?M = "\<lambda>kv. bytes_Equal (fst kv) k"
  show ?case
  proof (cases "ko \<noteq> None")
    case True
    then show ?thesis by simp
  next
    case False
    define xl where "xl = (case l of None \<Rightarrow> [] | Some c \<Rightarrow> entries c)"
    define xr where "xr = (case r of None \<Rightarrow> [] | Some c \<Rightarrow> entries c)"
    have e: "entries (Node lv b nm l r ko vo) = xl @ xr"
      using False by (simp add: xl_def xr_def)
    have L: "length (filter ?M xl) \<le> 1"
    proof (cases l)
      case None
      then show ?thesis by (simp add: xl_def)
    next
      case (Some c)
      with Node.prems have "routed c" by simp
      from Node.IH(1) [of c, OF _ this] Some show ?thesis by (simp add: xl_def)
    qed
    have R: "length (filter ?M xr) \<le> 1"
    proof (cases r)
      case None
      then show ?thesis by (simp add: xr_def)
    next
      case (Some c)
      with Node.prems have "routed c" by simp
      from Node.IH(2) [of c, OF _ this] Some show ?thesis by (simp add: xr_def)
    qed
    have gl: "goes_to_left b nm (fst kv)" if "kv \<in> set xl" for kv
      using that Node.prems by (cases l) (auto simp: xl_def list_all_iff)
    have gr: "goes_to_right b nm (fst kv)" if "kv \<in> set xr" for kv
      using that Node.prems by (cases r) (auto simp: xr_def list_all_iff)
    have "filter ?M xl = [] \<or> filter ?M xr = []"
    proof (rule ccontr)
      assume "\<not> (filter ?M xl = [] \<or> filter ?M xr = [])"
      then obtain a c where a: "a \<in> set xl" "?M a" and c: "c \<in> set xr" "?M c"
        by (auto simp: filter_empty_conv)
      from gl [OF a(1)] index_bytes_Equal [OF a(2)] have "goes_to_left b nm k"
        by (simp add: goes_to_left_def)
      moreover from gr [OF c(1)] index_bytes_Equal [OF c(2)] have "goes_to_right b nm k"
        by (simp add: goes_to_right_def)
      ultimately show False
        by (auto simp: goes_to_left_def goes_to_right_def split: sum.splits)
    qed
    with L R show ?thesis unfolding e by auto
  qed
qed

lemma present_filter:
  "ke \<in> fst ` set xs \<Longrightarrow> bytes_Equal ke k \<Longrightarrow> filter (\<lambda>kv. bytes_Equal (fst kv) k) xs \<noteq> []"
  by (auto simp: filter_empty_conv)

text \<open>C5: in a trie produced by insertions, adding a key that a leaf already holds
  (\<^verbatim>\<open>bytes.Equal\<close>) succeeds; exactly one leaf holds that key, its value is replaced and
  no other, and the nodes, their links, levels and keys are as they were.\<close>

theorem existing_key_overwritten:
  assumes "AddAll NewMerkleTrie kvs = Some (Inr t)"
    and "ke \<in> fst ` set (entries (root t))" and "bytes_Equal ke k"
  shows "Add t k v = Some (Inr (t\<lparr>root := set_leaf_value k v (root t)\<rparr>))
       \<and> shape (set_leaf_value k v (root t)) = shape (root t)
       \<and> entries (set_leaf_value k v (root t))
           = map (\<lambda>kv. if bytes_Equal (fst kv) k then (fst kv, v) else kv) (entries (root t))
       \<and> length (filter (\<lambda>kv. bytes_Equal (fst kv) k) (entries (root t))) = 1"
proof -
  have "routed (root NewMerkleTrie)" "left (root NewMerkleTrie) = None"
    "right (root NewMerkleTrie) = None"
    by (simp_all add: NewMerkleTrie_def newNode_def)
  with AddAll_keeps_routed [OF assms(1)] have rt: "routed (root t)" by simp
  have ne: "\<not> empty t"
  proof
    assume "empty t"
    from AddAll_empty_result [OF assms(1) this] assms(2) show False
      by (simp add: NewMerkleTrie_def newNode_def)
  qed
  from add_present [OF rt assms(2,3), of v] ne
  have A: "Add t k v = Some (Inr (t\<lparr>root := set_leaf_value k v (root t)\<rparr>))"
    by (simp add: Add_def)
  from routed_one_leaf [OF rt, of k] present_filter [OF assms(2,3)]
  have "length (filter (\<lambda>kv. bytes_Equal (fst kv) k) (entries (root t))) = 1"
    by (cases "filter (\<lambda>kv. bytes_Equal (fst kv) k) (entries (root t))") simp_all
  with A show ?thesis
    by (simp add: shape_set_leaf_value entries_set_leaf_value)
qed

theorem existing_key_overwritten_witness:
  "AddAll NewMerkleTrie two_pairs = Some (Inr two_leaf_trie)
   \<and> Some [0, 1] \<in> fst ` set (entries (root two_leaf_trie))
   \<and> bytes_Equal (Some [0, 1]) (Some [0, 1])
   \<and> Add two_leaf_trie (Some [0, 1]) (Some [9])
       = Some (Inr (two_leaf_trie\<lparr>root := set_leaf_value (Some [0, 1]) (Some [9]) (root two_leaf_trie)\<rparr>))
   \<and> shape (set_leaf_value (Some [0, 1]) (Some [9]) (root two_leaf_trie)) = shape (root two_leaf_trie)
   \<and> entries (set_leaf_value (Some [0, 1]) (Some [9]) (root two_leaf_trie))
       = map (\<lambda>kv. if bytes_Equal (fst kv) (Some [0, 1]) then (fst kv, Some [9]) else kv)
           (entries (root two_leaf_trie))
   \<and> length (filter (\<lambda>kv. bytes_Equal (fst kv) (Some [0, 1])) (entries (root two_leaf_trie))) = 1"
proof -
  have run: "AddAll NewMerkleTrie two_pairs = Some (Inr two_leaf_trie)"
    by (simp add: two_pairs_def two_leaf_trie_def eval_defs add.simps)
  have present: "Some [0, 1] \<in> fst ` set (entries (root two_leaf_trie))"
    by (simp add: two_leaf_trie_def)
  have eq: "bytes_Equal (Some [0, 1]) (Some [0, 1])"
    by (simp add: bytes_Equal_def)
  show ?thesis
    by (rule conjI [OF run conjI [OF present conjI [OF eq
          existing_key_overwritten [OF run present eq]]]])
qed

section \<open>Reads of a key outside its length\<close>

lemma add_unfold:
  assumes "\<not> (key n \<noteq> None \<and> bytes_Equal (key n) k)" "index k (number n) = Inr b"
  shows "add n k v =
    Option.bind
      (case slot n b of
         None \<Rightarrow> Some (Inr (set_slot n b (Some (newNode (level n + 1) k v))))
       | Some c \<Rightarrow> Option.bind (add c k v) (\<lambda>r. Some (in_slot n b r)))
      (\<lambda>r. case r of
             Inl p \<Rightarrow> Some (Inl p)
           | Inr n1 \<Rightarrow>
               if key n1 \<noteq> None
               then add (set_val (set_key n1 None) None) (key n1) (val n1)
               else Some (Inr n1))"
proof (cases "nbit n AND b = 0")
  case True
  have "(\<lambda>r. Some (in_left n r)) = (\<lambda>r. Some (in_slot n b r))"
    using True by (simp add: in_slot_def)
  with assms True show ?thesis
    by (subst add.simps) (auto simp: slot_def set_slot_def split: option.splits)
next
  case False
  have "(\<lambda>r. Some (in_right n r)) = (\<lambda>r. Some (in_slot n b r))"
    using False by (simp add: in_slot_def)
  with assms False show ?thesis
    by (subst add.simps) (auto simp: slot_def set_slot_def split: option.splits)
qed

lemma add_child_panic:
  assumes "\<not> (key n \<noteq> None \<and> bytes_Equal (key n) k)" "index k (number n) = Inr b"
    "slot n b = Some c" "add c k v = Some (Inl (e, c'))"
  shows "add n k v = Some (Inl (e, set_slot n b (Some c')))"
  using assms(3,4) by (subst add_unfold [OF assms(1,2)]) simp

lemma add_again_fresh:
  assumes "\<not> (key n \<noteq> None \<and> bytes_Equal (key n) k)" "index k (number n) = Inr b"
    "slot n b = None" "key n \<noteq> None"
  shows "add n k v =
    add (set_val (set_key (set_slot n b (Some (newNode (level n + 1) k v))) None) None) (key n) (val n)"
  using assms(3,4) by (subst add_unfold [OF assms(1,2)]) simp

lemma add_again_child:
  assumes "\<not> (key n \<noteq> None \<and> bytes_Equal (key n) k)" "index k (number n) = Inr b"
    "slot n b = Some c" "add c k v = Some (Inr c')" "key n \<noteq> None"
  shows "add n k v =
    add (set_val (set_key (set_slot n b (Some c')) None) None) (key n) (val n)"
  using assms(3,4,5) by (subst add_unfold [OF assms(1,2)]) simp


lemma panic_is_short_read:
  assumes "add n k v = Some r"
  shows "add n k v = Some r \<and>
    (\<forall>e n'. r = Inl (e, n') \<longrightarrow>
       e = IndexOutOfRange \<and> (\<exists>k' i. reads n k v k' i \<and> slice_len k' \<le> unat i))"
  using assms
proof (induction rule: add_induct)
  case (Equal n k v)
  then show ?case by (subst add.simps) simp
next
  case (Panic n k v e)
  from index_Inl [OF Panic(2)] have e: "e = IndexOutOfRange" "slice_len k \<le> unat (number n)"
    by simp_all
  from Panic have "add n k v = Some (Inl (e, n))" by (subst add.simps) auto
  with e reads.read_here [OF Panic(1), of v] show ?case by blast
next
  case (ChildPanic n k v b c e c')
  from ChildPanic.IH have a: "add c k v = Some (Inl (e, c'))"
    and e: "e = IndexOutOfRange"
    and "\<exists>k' i. reads c k v k' i \<and> slice_len k' \<le> unat i" by blast+
  then obtain k' i where "reads c k v k' i" "slice_len k' \<le> unat i" by blast
  with reads.read_child [OF ChildPanic.hyps(1,2,3)]
  have "reads n k v k' i \<and> slice_len k' \<le> unat i" by blast
  with add_child_panic [OF ChildPanic.hyps(1,2,3) a] e show ?case by blast
next
  case (Fresh n k v b)
  then show ?case by (subst add_unfold [of n k b]) simp_all
next
  case (FreshDemote n k v b r)
  have ne: "\<not> (key n \<noteq> None \<and> bytes_Equal (key n) k)" using FreshDemote.hyps(1) by simp
  note u = add_again_fresh [OF ne FreshDemote.hyps(2,3,4), of v]
  from FreshDemote.IH u have "add n k v = Some r" by simp
  moreover have "e = IndexOutOfRange \<and> (\<exists>k' i. reads n k v k' i \<and> slice_len k' \<le> unat i)"
    if "r = Inl (e, n')" for e n'
  proof -
    from FreshDemote.IH that obtain k' i where e: "e = IndexOutOfRange"
      and "reads (set_val (set_key (set_slot n b (Some (newNode (level n + 1) k v))) None) None)
             (key n) (val n) k' i" and s: "slice_len k' \<le> unat i" by blast
    from reads.read_again_fresh [OF ne FreshDemote.hyps(2,3,4) this(2)] e s show ?thesis by blast
  qed
  ultimately show ?case by blast
next
  case (Child n k v b c c')
  from Child.IH have "add c k v = Some (Inr c')" by simp
  with Child.hyps show ?case by (subst add_unfold [of n k b]) simp_all
next
  case (ChildDemote n k v b c c' r)
  have ne: "\<not> (key n \<noteq> None \<and> bytes_Equal (key n) k)" using ChildDemote.hyps(1) by simp
  from ChildDemote.IH(1) have a: "add c k v = Some (Inr c')" by simp
  note u = add_again_child [OF ne ChildDemote.hyps(2,3) a ChildDemote.hyps(4)]
  from ChildDemote.IH(2) u have "add n k v = Some r" by simp
  moreover have "e = IndexOutOfRange \<and> (\<exists>k' i. reads n k v k' i \<and> slice_len k' \<le> unat i)"
    if "r = Inl (e, n')" for e n'
  proof -
    from ChildDemote.IH(2) that obtain k' i where e: "e = IndexOutOfRange"
      and "reads (set_val (set_key (set_slot n b (Some c')) None) None) (key n) (val n) k' i"
      and s: "slice_len k' \<le> unat i" by blast
    from reads.read_again_child [OF ne ChildDemote.hyps(2,3) a ChildDemote.hyps(4) this(2)] e s
    show ?thesis by blast
  qed
  ultimately show ?case by blast
qed

lemma too_short_reads:
  "too_short n k \<Longrightarrow> \<exists>i. reads n k v k i \<and> slice_len k \<le> unat i"
proof (induction n)
  case (Node lv b nm l r ko vo)
  let ?n = "Node lv b nm l r ko vo"
  from Node.prems have ne: "\<not> (key ?n \<noteq> None \<and> bytes_Equal (key ?n) k)"
    by (simp add: too_short_Node)
  show ?case
  proof (cases "index k nm")
    case (Inl e)
    then have "slice_len k \<le> unat (number ?n)" using index_Inl by simp
    with reads.read_here [OF ne, of v] show ?thesis by blast
  next
    case (Inr x)
    then have x: "index k (number ?n) = Inr x" by simp
    from Node.prems Inr ne obtain c where c: "slot ?n x = Some c" "too_short c k"
      and mem: "Some c \<in> {l, r}"
      by (auto simp: too_short_Node slot_def split: option.splits if_splits)
    from mem c(2) have "\<exists>i. reads c k v k i \<and> slice_len k \<le> unat i"
      using Node.IH by auto
    then obtain i where "reads c k v k i" "slice_len k \<le> unat i" by blast
    with reads.read_child [OF ne x c(1)] show ?thesis by blast
  qed
qed







lemma panic_has_short_read:
  assumes "\<not> empty t" "Add t k v = Some (Inl (e, t'))"
  shows "e = IndexOutOfRange \<and> (\<exists>k' i. reads (root t) k v k' i \<and> slice_len k' \<le> unat i)"
proof -
  from assms obtain n' where "add (root t) k v = Some (Inl (e, n'))"
    by (cases "add (root t) k v")
      (auto simp: Add_def split: sum.splits prod.splits)
  from panic_is_short_read [OF this] show ?thesis by blast
qed

end
